theory Spec2Isabelle
  imports Complex_Main "HOL-Library.Multiset"
begin

section \<open>Data model of the actor manager\<close>

text \<open>
  The embedding follows \<^verbatim>\<open>source/main/physics/BeamFactory.cpp\<close>. The C++ \<^verbatim>\<open>float\<close>
  is modelled by exact real arithmetic: rounding is not represented. Null pointers
  are \<open>None\<close>; the fixed array \<^verbatim>\<open>m_actors[MAX_TRUCKS]\<close> is a list whose length is
  the constant \<^verbatim>\<open>MAX_TRUCKS\<close>, which is declared outside this file.
\<close>

datatype SimState = LOCAL_SIMULATED | NETWORKED_OK | LOCAL_SLEEPING | INVALID

datatype Vector3 = Vector3 (vx: real) (vy: real) (vz: real)

record AxisAlignedBox =
  mMinimum :: Vector3
  mMaximum :: Vector3

record Actor =
  ar_instance_id :: nat
  ar_sim_state :: SimState
  ar_sleep_counter :: real
  ar_velocity :: Vector3
  ar_bounding_box :: AxisAlignedBox
  ar_predicted_bounding_box :: AxisAlignedBox
  ar_collision_bounding_boxes :: "AxisAlignedBox list"
  ar_predicted_coll_bounding_boxes :: "AxisAlignedBox list"
  ar_net_source_id :: int
  ar_net_stream_id :: int
  ar_update_physics :: bool
  ar_disable_self_collision :: bool
  ar_disable_actor2actor_collision :: bool

record ActorManager =
  m_actors :: "Actor option list"
  m_free_actor_slot :: nat
  m_player_actor :: int
  m_prev_player_actor :: int
  m_forced_active :: bool
  m_dt_remainder :: real
  m_physics_steps :: int
  m_physics_frames :: nat
  m_simulation_speed :: real
  m_stream_mismatches :: "int \<rightharpoonup> int list"
  mrTime :: real

definition MAX_TRUCKS :: "ActorManager \<Rightarrow> nat" where
  "MAX_TRUCKS m = length (m_actors m)"

text \<open>
  \<^verbatim>\<open>m_actors[t]\<close> read as a pointer. Every read in the source is at an index below
  \<^verbatim>\<open>MAX_TRUCKS\<close>; outside the array the model reads null.
\<close>

definition actor_at :: "ActorManager \<Rightarrow> nat \<Rightarrow> Actor option" where
  "actor_at m t = (if t < length (m_actors m) then m_actors m ! t else None)"

text \<open>\<^verbatim>\<open>m_actors[t]->field = v\<close>: an update through the pointer stored in slot \<open>t\<close>.\<close>

definition set_actor :: "nat \<Rightarrow> (Actor \<Rightarrow> Actor) \<Rightarrow> ActorManager \<Rightarrow> ActorManager" where
  "set_actor t f m = m\<lparr>m_actors := (m_actors m)[t := map_option f (actor_at m t)]\<rparr>"

definition sim_state_at :: "ActorManager \<Rightarrow> nat \<Rightarrow> SimState option" where
  "sim_state_at m t = map_option ar_sim_state (actor_at m t)"

definition sleep_counter_at :: "ActorManager \<Rightarrow> nat \<Rightarrow> real option" where
  "sleep_counter_at m t = map_option ar_sleep_counter (actor_at m t)"

section \<open>Spatial overlap oracle\<close>

definition vadd :: "Vector3 \<Rightarrow> Vector3 \<Rightarrow> Vector3" where
  "vadd a b = Vector3 (vx a + vx b) (vy a + vy b) (vz a + vz b)"

definition vsub :: "Vector3 \<Rightarrow> Vector3 \<Rightarrow> Vector3" where
  "vsub a b = Vector3 (vx a - vx b) (vy a - vy b) (vz a - vz b)"

definition vscale :: "Vector3 \<Rightarrow> real \<Rightarrow> Vector3" where
  "vscale a s = Vector3 (vx a * s) (vy a * s) (vz a * s)"

definition squaredLength :: "Vector3 \<Rightarrow> real" where
  "squaredLength a = vx a * vx a + vy a * vy a + vz a * vz a"

text \<open>
  Modelled from the spec: \<^verbatim>\<open>Ogre::AxisAlignedBox\<close> belongs to the rendering library and
  is not in the source tree. Section 4.3 describes the test as an axis-aligned overlap
  of boxes dilated about their own centres; the three operations below are that
  reading for finite boxes (boxes that touch overlap).
\<close>

definition getCenter :: "AxisAlignedBox \<Rightarrow> Vector3" where
  "getCenter b = vscale (vadd (mMaximum b) (mMinimum b)) (1 / 2)"

definition getHalfSize :: "AxisAlignedBox \<Rightarrow> Vector3" where
  "getHalfSize b = vscale (vsub (mMaximum b) (mMinimum b)) (1 / 2)"

definition intersects :: "AxisAlignedBox \<Rightarrow> AxisAlignedBox \<Rightarrow> bool" where
  "intersects a b =
     (if vx (mMaximum a) < vx (mMinimum b) then False
      else if vy (mMaximum a) < vy (mMinimum b) then False
      else if vz (mMaximum a) < vz (mMinimum b) then False
      else if vx (mMinimum a) > vx (mMaximum b) then False
      else if vy (mMinimum a) > vy (mMaximum b) then False
      else if vz (mMinimum a) > vz (mMaximum b) then False
      else True)"

definition dilate :: "AxisAlignedBox \<Rightarrow> real \<Rightarrow> AxisAlignedBox" where
  "dilate a scale =
     (let a_center = getCenter a; a_half_size = getHalfSize a
      in a\<lparr>mMaximum := vadd a_center (vscale a_half_size scale),
            mMinimum := vsub a_center (vscale a_half_size scale)\<rparr>)"

definition intersectionAABB :: "AxisAlignedBox \<Rightarrow> AxisAlignedBox \<Rightarrow> real \<Rightarrow> bool" where
  "intersectionAABB a b scale =
     (if scale \<noteq> 1 then intersects (dilate a scale) (dilate b scale)
      else intersects a b)"

text \<open>
  The common body of \<^verbatim>\<open>truckIntersectionCollAABB\<close> and
  \<^verbatim>\<open>predictTruckIntersectionCollAABB\<close>: \<open>ba\<close>, \<open>bb\<close> are the whole-body boxes and
  \<open>ca\<close>, \<open>cb\<close> the per-segment box lists of the two actors.
\<close>

definition collAABB ::
  "AxisAlignedBox \<Rightarrow> AxisAlignedBox list \<Rightarrow> AxisAlignedBox \<Rightarrow> AxisAlignedBox list \<Rightarrow> real \<Rightarrow> bool"
where
  "collAABB ba ca bb cb scale =
     (if ca = [] \<and> cb = [] then intersectionAABB ba bb scale
      else if ca = [] then list_ex (\<lambda>it. intersectionAABB it ba scale) cb
      else if cb = [] then list_ex (\<lambda>it. intersectionAABB it bb scale) ca
      else list_ex (\<lambda>it_a. list_ex (\<lambda>it_b. intersectionAABB it_a it_b scale) cb) ca)"

text \<open>
  Both functions dereference \<^verbatim>\<open>m_actors[a]\<close> and \<^verbatim>\<open>m_actors[b]\<close>; every caller has
  checked that the two slots are occupied. An empty slot gives \<open>False\<close> here.
\<close>

definition truckIntersectionCollAABB :: "ActorManager \<Rightarrow> nat \<Rightarrow> nat \<Rightarrow> real \<Rightarrow> bool" where
  "truckIntersectionCollAABB m a b scale =
     (case (actor_at m a, actor_at m b) of
        (Some x, Some y) \<Rightarrow>
          collAABB (ar_bounding_box x) (ar_collision_bounding_boxes x)
                   (ar_bounding_box y) (ar_collision_bounding_boxes y) scale
      | _ \<Rightarrow> False)"

definition predictTruckIntersectionCollAABB :: "ActorManager \<Rightarrow> nat \<Rightarrow> nat \<Rightarrow> real \<Rightarrow> bool" where
  "predictTruckIntersectionCollAABB m a b scale =
     (case (actor_at m a, actor_at m b) of
        (Some x, Some y) \<Rightarrow>
          collAABB (ar_predicted_bounding_box x) (ar_predicted_coll_bounding_boxes x)
                   (ar_predicted_bounding_box y) (ar_predicted_coll_bounding_boxes y) scale
      | _ \<Rightarrow> False)"

section \<open>Activity state machine\<close>

text \<open>
  \<^verbatim>\<open>RecursiveActivation(j, visited)\<close>. The state is the manager and the bitset
  \<^verbatim>\<open>visited\<close>. The first argument bounds the depth of the recursion: \<open>None\<close> means the
  bound was reached. \<open>RecursiveActivation_body\<close> is one iteration of the \<^verbatim>\<open>for\<close> loop
  over \<open>t\<close>, with \<open>recurse\<close> standing for the recursive call. Its two \<^verbatim>\<open>if\<close>
  statements, \<open>activate_simulated\<close> and \<open>activate_sleeping\<close>, run one after the other,
  the second on the state the first one leaves. The dilation \<^verbatim>\<open>1.2f\<close> is \<open>6 / 5\<close>; the
  dilation of the predicted test is its default argument, which section 4.2 gives as 1.
\<close>

definition reset_sleep_counter :: "Actor \<Rightarrow> Actor" where
  "reset_sleep_counter a = a\<lparr>ar_sleep_counter := 0\<rparr>"

definition wake_up :: "Actor \<Rightarrow> Actor" where
  "wake_up a = a\<lparr>ar_sleep_counter := 0, ar_sim_state := LOCAL_SIMULATED\<rparr>"

definition activate_simulated ::
  "(nat \<Rightarrow> ActorManager \<times> nat set \<Rightarrow> (ActorManager \<times> nat set) option) \<Rightarrow>
   nat \<Rightarrow> nat \<Rightarrow> ActorManager \<times> nat set \<Rightarrow> (ActorManager \<times> nat set) option"
where
  "activate_simulated recurse j t s =
     (case s of (m, visited) \<Rightarrow>
        if sim_state_at m t = Some LOCAL_SIMULATED \<and> truckIntersectionCollAABB m t j (6 / 5)
        then recurse t (set_actor t reset_sleep_counter m, visited)
        else Some (m, visited))"

definition activate_sleeping ::
  "(nat \<Rightarrow> ActorManager \<times> nat set \<Rightarrow> (ActorManager \<times> nat set) option) \<Rightarrow>
   nat \<Rightarrow> nat \<Rightarrow> ActorManager \<times> nat set \<Rightarrow> (ActorManager \<times> nat set) option"
where
  "activate_sleeping recurse j t s =
     (case s of (m, visited) \<Rightarrow>
        if sim_state_at m t = Some LOCAL_SLEEPING \<and> predictTruckIntersectionCollAABB m t j 1
        then recurse t (set_actor t wake_up m, visited)
        else Some (m, visited))"

definition RecursiveActivation_body ::
  "(nat \<Rightarrow> ActorManager \<times> nat set \<Rightarrow> (ActorManager \<times> nat set) option) \<Rightarrow>
   nat \<Rightarrow> nat \<Rightarrow> ActorManager \<times> nat set \<Rightarrow> (ActorManager \<times> nat set) option"
where
  "RecursiveActivation_body recurse j t s =
     (case s of (m, visited) \<Rightarrow>
        if t = j \<or> actor_at m t = None \<or> t \<in> visited then Some (m, visited)
        else Option.bind (activate_simulated recurse j t (m, visited)) (activate_sleeping recurse j t))"

primrec RecursiveActivation ::
  "nat \<Rightarrow> nat \<Rightarrow> ActorManager \<times> nat set \<Rightarrow> (ActorManager \<times> nat set) option"
where
  "RecursiveActivation 0 j s = None"
| "RecursiveActivation (Suc n) j s =
     (case s of (m, visited) \<Rightarrow>
        if j \<in> visited \<or> actor_at m j = None \<or> sim_state_at m j \<noteq> Some LOCAL_SIMULATED
        then Some (m, visited)
        else fold (\<lambda>t r. Option.bind r (RecursiveActivation_body (RecursiveActivation n) j t))
               [0..<m_free_actor_slot m]
               (Some (m, insert j visited)))"

definition getTruck :: "ActorManager \<Rightarrow> int \<Rightarrow> Actor option" where
  "getTruck m number =
     (if number \<ge> 0 \<and> number < int (m_free_actor_slot m) then actor_at m (nat number) else None)"

definition GetPlayerActorInternal :: "ActorManager \<Rightarrow> Actor option" where
  "GetPlayerActorInternal m = getTruck m (m_player_actor m)"

text \<open>The body of the first loop of \<^verbatim>\<open>UpdateSleepingState\<close> for an occupied slot.\<close>

definition sleep_tick :: "real \<Rightarrow> Actor \<Rightarrow> Actor" where
  "sleep_tick dt a =
     (if ar_sim_state a \<noteq> LOCAL_SIMULATED then a
      else if squaredLength (ar_velocity a) > 1 / 100 then a
      else let a' = a\<lparr>ar_sleep_counter := ar_sleep_counter a + dt\<rparr>
           in if ar_sleep_counter a' \<ge> 10 then a'\<lparr>ar_sim_state := LOCAL_SLEEPING\<rparr> else a')"

text \<open>
  \<^verbatim>\<open>UpdateSleepingState\<close> in its three parts: the sleep timers, the wake-up of the
  player's actor, and the reachability pass with the local bitset \<^verbatim>\<open>visited\<close>. The
  pass returns the final bitset beside the state.
\<close>

definition UpdateSleepingState_timers :: "real \<Rightarrow> ActorManager \<Rightarrow> ActorManager" where
  "UpdateSleepingState_timers dt m =
     (if \<not> m_forced_active m
      then fold (\<lambda>t m. set_actor t (sleep_tick dt) m) [0..<m_free_actor_slot m] m
      else m)"

definition UpdateSleepingState_player :: "ActorManager \<Rightarrow> ActorManager" where
  "UpdateSleepingState_player m =
     (case GetPlayerActorInternal m of
        Some current_truck \<Rightarrow>
          if ar_sim_state current_truck = LOCAL_SLEEPING
          then set_actor (nat (m_player_actor m)) (\<lambda>a. a\<lparr>ar_sim_state := LOCAL_SIMULATED\<rparr>) m
          else m
      | None \<Rightarrow> m)"

definition UpdateSleepingState_reach :: "ActorManager \<Rightarrow> (ActorManager \<times> nat set) option" where
  "UpdateSleepingState_reach m =
     (let depth = Suc (m_free_actor_slot m);
          r0 = (case GetPlayerActorInternal m of
                  Some current_truck \<Rightarrow>
                    if ar_sim_state current_truck = LOCAL_SIMULATED
                    then RecursiveActivation depth (nat (m_player_actor m))
                           (set_actor (nat (m_player_actor m)) reset_sleep_counter m, {})
                    else Some (m, {})
                | None \<Rightarrow> Some (m, {}))
      in fold
           (\<lambda>t r. Option.bind r (\<lambda>(m, visited).
              if sim_state_at m t = Some LOCAL_SIMULATED \<and> sleep_counter_at m t = Some 0
              then RecursiveActivation depth t (m, visited)
              else Some (m, visited)))
           [0..<m_free_actor_slot m] r0)"

definition UpdateSleepingState :: "real \<Rightarrow> ActorManager \<Rightarrow> (ActorManager \<times> nat set) option" where
  "UpdateSleepingState dt m =
     UpdateSleepingState_reach (UpdateSleepingState_player (UpdateSleepingState_timers dt m))"

section \<open>Player selection and deletion\<close>

text \<open>
  \<^verbatim>\<open>setCurrentTruck\<close>: the notification of the simulation controller
  (\<^verbatim>\<open>ChangedCurrentVehicle\<close>) is a call into another component and leaves the manager
  as it is. \<^verbatim>\<open>DeleteTruck\<close> takes the pointer \<open>b\<close>; joining the background task
  (\<^verbatim>\<open>SyncWithSimThread\<close>) and the network packet have no effect on the manager.
\<close>

definition setCurrentTruck :: "int \<Rightarrow> ActorManager \<Rightarrow> ActorManager option" where
  "setCurrentTruck new_truck m =
     map_option fst
       (UpdateSleepingState 0
          (m\<lparr>m_prev_player_actor := m_player_actor m, m_player_actor := new_truck\<rparr>))"

definition DeleteTruck :: "Actor option \<Rightarrow> ActorManager \<Rightarrow> ActorManager option" where
  "DeleteTruck b m =
     (case b of
        None \<Rightarrow> Some m
      | Some b \<Rightarrow>
          Option.bind
            (if m_player_actor m = int (ar_instance_id b) then setCurrentTruck (- 1) m else Some m)
            (\<lambda>m1. Some (m1\<lparr>m_actors := (m_actors m1)[ar_instance_id b := None]\<rparr>)))"

section \<open>Actor slot registry\<close>

text \<open>
  \<^verbatim>\<open>GetFreeTruckSlot\<close>: the loop from index \<open>t\<close> on. The C++ function returns \<open>-1\<close>
  when the loop ends without a slot; here that is \<open>None\<close>.
\<close>

function GetFreeTruckSlot_from :: "nat \<Rightarrow> ActorManager \<Rightarrow> nat option \<times> ActorManager" where
  "GetFreeTruckSlot_from t m =
     (if t < MAX_TRUCKS m
      then (if actor_at m t = None \<and> t \<ge> m_free_actor_slot m
            then (Some t, if t \<ge> m_free_actor_slot m then m\<lparr>m_free_actor_slot := t + 1\<rparr> else m)
            else GetFreeTruckSlot_from (t + 1) m)
      else (None, m))"
  by pat_completeness auto
termination
  by (relation "measure (\<lambda>(t, m). MAX_TRUCKS m - t)") auto

definition GetFreeTruckSlot :: "ActorManager \<Rightarrow> nat option \<times> ActorManager" where
  "GetFreeTruckSlot m = GetFreeTruckSlot_from 0 m"

text \<open>
  Modelled from the spec: the constructor of \<^verbatim>\<open>Actor\<close> is not in the source tree. By
  section 3 a live actor's own index field equals its slot index, so the constructed
  actor is \<open>b0\<close>, whatever the constructor computes from the other arguments and its
  own validation, with \<^verbatim>\<open>ar_instance_id\<close> set to \<^verbatim>\<open>truck_num\<close>.

  \<^verbatim>\<open>CreateLocalRigInstance\<close> returns the pointer to the new actor, or null. What it
  does after storing the actor (slide nodes, menu, network name) is outside the
  manager's state.
\<close>

definition new_Actor :: "Actor \<Rightarrow> nat \<Rightarrow> Actor" where
  "new_Actor b0 truck_num = b0\<lparr>ar_instance_id := truck_num\<rparr>"

definition CreateLocalRigInstance ::
  "Actor \<Rightarrow> ActorManager \<Rightarrow> (Actor option \<times> ActorManager) option"
where
  "CreateLocalRigInstance b0 m =
     (case GetFreeTruckSlot m of
        (None, m1) \<Rightarrow> Some (None, m1)
      | (Some truck_num, m1) \<Rightarrow>
          (let b = new_Actor b0 truck_num
           in if ar_sim_state b = INVALID
              then map_option (\<lambda>m2. (None, m2)) (DeleteTruck (Some b) m1)
              else Some (Some b, m1\<lparr>m_actors := (m_actors m1)[truck_num := Some b]\<rparr>)))"

definition CleanUpAllTrucks :: "ActorManager \<Rightarrow> ActorManager" where
  "CleanUpAllTrucks m =
     (fold (\<lambda>i m. if actor_at m i = None then m else m\<lparr>m_actors := (m_actors m)[i := None]\<rparr>)
        [0..<m_free_actor_slot m] m)
     \<lparr>m_player_actor := - 1\<rparr>"

text \<open>
  A session: spawns, deletions of the actor in a slot and clean-ups, in any order.
  The run returns the final manager and the slot indices the spawns obtained from
  \<^verbatim>\<open>GetFreeTruckSlot\<close>, oldest first.
\<close>

datatype registry_op = Spawn Actor | Delete nat | ClearAll

definition registry_step ::
  "registry_op \<Rightarrow> ActorManager \<Rightarrow> (nat list \<times> ActorManager) option"
where
  "registry_step opr m =
     (case opr of
        Spawn b0 \<Rightarrow>
          map_option (\<lambda>(b, m'). (case fst (GetFreeTruckSlot m) of None \<Rightarrow> [] | Some t \<Rightarrow> [t], m'))
            (CreateLocalRigInstance b0 m)
      | Delete i \<Rightarrow> map_option (\<lambda>m'. ([], m')) (DeleteTruck (getTruck m (int i)) m)
      | ClearAll \<Rightarrow> Some ([], CleanUpAllTrucks m))"

fun registry_run :: "registry_op list \<Rightarrow> ActorManager \<Rightarrow> (nat list \<times> ActorManager) option" where
  "registry_run [] m = Some ([], m)"
| "registry_run (opr # oprs) m =
     Option.bind (registry_step opr m)
       (\<lambda>(ts, m1). map_option (\<lambda>(ts', m2). (ts @ ts', m2)) (registry_run oprs m1))"

section \<open>Stream health query\<close>

text \<open>
  \<^verbatim>\<open>m_stream_mismatches[sourceid]\<close> is \<^verbatim>\<open>operator[]\<close> of \<^verbatim>\<open>std::map\<close>: a key that is
  absent is inserted with an empty value before the value is read.
\<close>

function checkStreamsOK_from :: "int \<Rightarrow> nat \<Rightarrow> ActorManager \<Rightarrow> int" where
  "checkStreamsOK_from sourceid t m =
     (if t < m_free_actor_slot m
      then (case actor_at m t of
              None \<Rightarrow> checkStreamsOK_from sourceid (t + 1) m
            | Some a \<Rightarrow>
                if ar_sim_state a \<noteq> NETWORKED_OK then checkStreamsOK_from sourceid (t + 1) m
                else if ar_net_source_id a = sourceid then 1
                else checkStreamsOK_from sourceid (t + 1) m)
      else 2)"
  by pat_completeness auto
termination
  by (relation "measure (\<lambda>(sourceid, t, m). m_free_actor_slot m - t)") auto

definition checkStreamsOK :: "int \<Rightarrow> ActorManager \<Rightarrow> int \<times> ActorManager" where
  "checkStreamsOK sourceid m =
     (let m' = (case m_stream_mismatches m sourceid of
                  None \<Rightarrow> m\<lparr>m_stream_mismatches := (m_stream_mismatches m)(sourceid \<mapsto> [])\<rparr>
                | Some v \<Rightarrow> m);
          mismatches = (case m_stream_mismatches m' sourceid of None \<Rightarrow> [] | Some v \<Rightarrow> v)
      in if length mismatches > 0 then (0, m')
         else (checkStreamsOK_from sourceid 0 m', m'))"

section \<open>Frame scheduler\<close>

text \<open>
  The conversion of a \<^verbatim>\<open>float\<close> to \<^verbatim>\<open>int\<close> in \<^verbatim>\<open>m_physics_steps = dt / PHYSICS_DT\<close>
  truncates towards zero. \<^verbatim>\<open>PHYSICS_DT\<close> is a macro defined outside this file and is a
  parameter here. \<open>update_schedule\<close> is \<^verbatim>\<open>ActorManager::update\<close> up to the advance of
  the clock \<^verbatim>\<open>gEnv->mrTime\<close>; it returns the value of the local \<^verbatim>\<open>dt\<close> beside the
  state. \<open>update\<close> continues with \<^verbatim>\<open>UpdateSleepingState(dt)\<close>; the statements after it
  call per-actor operations and start the physics dispatcher, which the next section
  models on its own.
\<close>

definition float_to_int :: "real \<Rightarrow> int" where
  "float_to_int v = (if v \<ge> 0 then \<lfloor>v\<rfloor> else \<lceil>v\<rceil>)"



section \<open>Physics step dispatcher\<close>

text \<open>
  \<^verbatim>\<open>UpdatePhysicsSimulation\<close> calls per-actor operations that are defined outside this
  file: \<^verbatim>\<open>preUpdatePhysics\<close>, the three phases of \<^verbatim>\<open>calcForcesEuler\<close>, the point
  collision detectors, the two collision solvers and \<^verbatim>\<open>postUpdatePhysics\<close>. They are
  parameters of the model. Each one acts on a value of type \<open>'e\<close>, which stands for the
  physical state of all actors and of whatever else the operations touch; its first
  argument is the slot of the actor it is called on. The dispatcher itself reads and
  writes the registry only: it stores the result of \<^verbatim>\<open>calcForcesEulerPrepare\<close> in
  \<^verbatim>\<open>ar_update_physics\<close> and reads the two collision switches.
\<close>

record 'e kernels =
  preUpdatePhysics :: "nat \<Rightarrow> real \<Rightarrow> 'e \<Rightarrow> 'e"
  calcForcesEulerPrepare :: "nat \<Rightarrow> bool \<Rightarrow> real \<Rightarrow> nat \<Rightarrow> int \<Rightarrow> 'e \<Rightarrow> bool \<times> 'e"
  calcForcesEulerCompute :: "nat \<Rightarrow> bool \<Rightarrow> real \<Rightarrow> nat \<Rightarrow> int \<Rightarrow> 'e \<Rightarrow> 'e"
  calcForcesEulerFinal :: "nat \<Rightarrow> bool \<Rightarrow> real \<Rightarrow> nat \<Rightarrow> int \<Rightarrow> 'e \<Rightarrow> 'e"
  IntraPointCD_update :: "nat \<Rightarrow> 'e \<Rightarrow> 'e"
  intraTruckCollisions :: "nat \<Rightarrow> real \<Rightarrow> 'e \<Rightarrow> 'e"
  InterPointCD_update :: "nat \<Rightarrow> 'e \<Rightarrow> 'e"
  ar_collision_relevant :: "nat \<Rightarrow> 'e \<Rightarrow> bool"
  interTruckCollisions :: "nat \<Rightarrow> real \<Rightarrow> 'e \<Rightarrow> 'e"
  postUpdatePhysics :: "nat \<Rightarrow> real \<Rightarrow> 'e \<Rightarrow> 'e"














definition pre_slot :: "'e kernels \<Rightarrow> real \<Rightarrow> ActorManager \<Rightarrow> nat \<Rightarrow> 'e \<Rightarrow> 'e" where
  "pre_slot K PHYSICS_DT m t e =
     (if actor_at m t = None then e
      else preUpdatePhysics K t (of_int (m_physics_steps m) * PHYSICS_DT) e)"




section \<open>Relations used to state the properties\<close>

text \<open>
  \<open>static\<close> forgets the two fields the activity state machine writes; two managers
  are \<open>same_static\<close> when they differ in nothing else. \<open>activation_step\<close> relates the
  state before and after part of a reachability pass: the bitset grows, a counter
  changes only by a reset of a simulated actor that overlaps a visited one, and a
  state changes only from sleeping to simulated, for an actor whose predicted
  geometry overlaps a visited one. \<open>wake_closed m j\<close> says that no actor whose predicted
  geometry overlaps that of \<open>j\<close> is left asleep.
\<close>

definition static :: "Actor \<Rightarrow> Actor" where
  "static a = a\<lparr>ar_sim_state := LOCAL_SIMULATED, ar_sleep_counter := 0\<rparr>"

definition same_static :: "ActorManager \<Rightarrow> ActorManager \<Rightarrow> bool" where
  "same_static m m' \<longleftrightarrow>
     map (map_option static) (m_actors m') = map (map_option static) (m_actors m) \<and>
     m'\<lparr>m_actors := m_actors m\<rparr> = m"

definition activation_step :: "ActorManager \<times> nat set \<Rightarrow> ActorManager \<times> nat set \<Rightarrow> bool" where
  "activation_step s s' \<longleftrightarrow>
     same_static (fst s) (fst s') \<and> snd s \<subseteq> snd s' \<and>
     (\<forall>t a a'. actor_at (fst s) t = Some a \<and> actor_at (fst s') t = Some a' \<longrightarrow>
        (ar_sim_state a' = ar_sim_state a \<and>
           (ar_sleep_counter a' = ar_sleep_counter a \<or>
            (ar_sleep_counter a' = 0 \<and> ar_sim_state a = LOCAL_SIMULATED \<and>
             (\<exists>j. j \<in> snd s' \<and> j \<noteq> t \<and> truckIntersectionCollAABB (fst s) t j (6 / 5)))))
        \<or> (ar_sim_state a = LOCAL_SLEEPING \<and> ar_sim_state a' = LOCAL_SIMULATED \<and>
            ar_sleep_counter a' = 0 \<and> t \<in> snd s' \<and>
            (\<exists>j. j \<in> snd s' \<and> j \<noteq> t \<and> predictTruckIntersectionCollAABB (fst s) t j 1)))"

definition visited_simulated :: "ActorManager \<times> nat set \<Rightarrow> bool" where
  "visited_simulated s \<longleftrightarrow> (\<forall>t. t \<in> snd s \<longrightarrow> sim_state_at (fst s) t = Some LOCAL_SIMULATED)"

definition wake_closed :: "ActorManager \<Rightarrow> nat \<Rightarrow> bool" where
  "wake_closed m j \<longleftrightarrow>
     (\<forall>t. t < m_free_actor_slot m \<and> t \<noteq> j \<and> predictTruckIntersectionCollAABB m t j 1
          \<longrightarrow> sim_state_at m t \<noteq> Some LOCAL_SLEEPING)"

definition closes :: "ActorManager \<times> nat set \<Rightarrow> ActorManager \<times> nat set \<Rightarrow> bool" where
  "closes s s' \<longleftrightarrow>
     visited_simulated s' \<and> (\<forall>j'. j' \<in> snd s' \<and> j' \<notin> snd s \<longrightarrow> wake_closed (fst s') j')"

definition unvisited :: "ActorManager \<times> nat set \<Rightarrow> nat" where
  "unvisited s = card ({..<m_free_actor_slot (fst s)} - snd s)"

definition player_reset :: "ActorManager \<Rightarrow> ActorManager" where
  "player_reset m =
     (case GetPlayerActorInternal m of
        Some current_truck \<Rightarrow>
          if ar_sim_state current_truck = LOCAL_SIMULATED
          then set_actor (nat (m_player_actor m)) reset_sleep_counter m
          else m
      | None \<Rightarrow> m)"

section \<open>Registry invariant and example values\<close>

text \<open>
  \<open>reg_inv\<close> is the invariant of section 3: the high-water mark is within the array,
  every occupied slot is below it, and an actor's own index is its slot. The
  constructor establishes it for the empty registry and every operation keeps it.
\<close>

definition reg_inv :: "ActorManager \<Rightarrow> bool" where
  "reg_inv m \<longleftrightarrow>
     m_free_actor_slot m \<le> MAX_TRUCKS m \<and>
     (\<forall>i a. actor_at m i = Some a \<longrightarrow> i < m_free_actor_slot m \<and> ar_instance_id a = i)"

text \<open>
  Values for the concrete instances: a box on the x axis, an actor with that box as
  actual and predicted geometry, and a manager as the constructor initialises it but
  for the actors, the high-water mark and the player's selection.
\<close>

definition example_box :: "real \<Rightarrow> real \<Rightarrow> AxisAlignedBox" where
  "example_box lo hi = \<lparr>mMinimum = Vector3 lo 0 0, mMaximum = Vector3 hi 1 1\<rparr>"

definition example_actor :: "SimState \<Rightarrow> real \<Rightarrow> real \<Rightarrow> real \<Rightarrow> Actor" where
  "example_actor st counter lo hi =
     \<lparr>ar_instance_id = 0, ar_sim_state = st, ar_sleep_counter = counter,
      ar_velocity = Vector3 0 0 0,
      ar_bounding_box = example_box lo hi, ar_predicted_bounding_box = example_box lo hi,
      ar_collision_bounding_boxes = [], ar_predicted_coll_bounding_boxes = [],
      ar_net_source_id = 0, ar_net_stream_id = 0, ar_update_physics = False,
      ar_disable_self_collision = False, ar_disable_actor2actor_collision = False\<rparr>"

definition example_manager :: "Actor option list \<Rightarrow> nat \<Rightarrow> int \<Rightarrow> ActorManager" where
  "example_manager actors free_slot player =
     \<lparr>m_actors = actors, m_free_actor_slot = free_slot, m_player_actor = player,
      m_prev_player_actor = - 1, m_forced_active = False, m_dt_remainder = 0,
      m_physics_steps = 2000, m_physics_frames = 0, m_simulation_speed = 1,
      m_stream_mismatches = Map.empty, mrTime = 0\<rparr>"

text \<open>
  A scene of five actors on the x axis: the player's actor in slot 0, two sleeping
  actors that form a chain with it, and further away a networked actor with a sleeping
  one beside it.
\<close>

definition example_scene :: ActorManager where
  "example_scene =
     example_manager
       [Some (example_actor LOCAL_SIMULATED 3 0 2), Some (example_actor LOCAL_SLEEPING 10 1 4),
        Some (example_actor LOCAL_SLEEPING 10 3 5), Some (example_actor NETWORKED_OK 0 10 12),
        Some (example_actor LOCAL_SLEEPING 10 11 13), None]
       5 0"

subsection \<open>Recording the calls of the dispatcher\<close>

text \<open>
  To compare the two branches, the operations are instantiated by ones that append
  their own name to a log. Whether an actor takes part in a substep (the result of
  \<^verbatim>\<open>calcForcesEulerPrepare\<close>) and whether its collisions are relevant
  (\<^verbatim>\<open>ar_collision_relevant\<close>) are given by two arbitrary functions.
\<close>

datatype kernel_call =
    PreUpdatePhysics nat
  | CalcForcesEulerPrepare nat nat
  | CalcForcesEulerCompute nat nat
  | CalcForcesEulerFinal nat nat
  | IntraPointCDUpdate nat
  | IntraTruckCollisions nat
  | InterPointCDUpdate nat
  | InterTruckCollisions nat
  | PostUpdatePhysics nat

definition recording :: "(nat \<Rightarrow> nat \<Rightarrow> bool) \<Rightarrow> (nat \<Rightarrow> bool) \<Rightarrow> kernel_call list kernels" where
  "recording participates relevant =
     \<lparr>preUpdatePhysics = (\<lambda>t dt e. e @ [PreUpdatePhysics t]),
      calcForcesEulerPrepare = (\<lambda>t doUpdate dt i n e. (participates t i, e @ [CalcForcesEulerPrepare t i])),
      calcForcesEulerCompute = (\<lambda>t doUpdate dt i n e. e @ [CalcForcesEulerCompute t i]),
      calcForcesEulerFinal = (\<lambda>t doUpdate dt i n e. e @ [CalcForcesEulerFinal t i]),
      IntraPointCD_update = (\<lambda>t e. e @ [IntraPointCDUpdate t]),
      intraTruckCollisions = (\<lambda>t dt e. e @ [IntraTruckCollisions t]),
      InterPointCD_update = (\<lambda>t e. e @ [InterPointCDUpdate t]),
      ar_collision_relevant = (\<lambda>t e. relevant t),
      interTruckCollisions = (\<lambda>t dt e. e @ [InterTruckCollisions t]),
      postUpdatePhysics = (\<lambda>t dt e. e @ [PostUpdatePhysics t])\<rparr>"

text \<open>The calls of the three force phases on the actor of slot \<open>t\<close>.\<close>

fun forces_of :: "nat \<Rightarrow> kernel_call \<Rightarrow> bool" where
  "forces_of t (CalcForcesEulerPrepare u i) = (u = t)"
| "forces_of t (CalcForcesEulerCompute u i) = (u = t)"
| "forces_of t (CalcForcesEulerFinal u i) = (u = t)"
| "forces_of t c = False"

text \<open>The pieces of the log of one substep.\<close>

definition prepare_calls :: "ActorManager \<Rightarrow> nat \<Rightarrow> nat \<Rightarrow> kernel_call list" where
  "prepare_calls m i t = (case actor_at m t of None \<Rightarrow> [] | Some a \<Rightarrow> [CalcForcesEulerPrepare t i])"

definition simulated :: "(nat \<Rightarrow> nat \<Rightarrow> bool) \<Rightarrow> ActorManager \<Rightarrow> nat \<Rightarrow> nat \<Rightarrow> bool" where
  "simulated participates m i t = (actor_at m t \<noteq> None \<and> participates t i)"

definition intra_calls :: "ActorManager \<Rightarrow> nat \<Rightarrow> kernel_call list" where
  "intra_calls m t =
     (case actor_at m t of
        None \<Rightarrow> []
      | Some a \<Rightarrow> if ar_disable_self_collision a then []
                  else [IntraPointCDUpdate t, IntraTruckCollisions t])"

definition inter_calls :: "(nat \<Rightarrow> bool) \<Rightarrow> nat \<Rightarrow> kernel_call list" where
  "inter_calls relevant t =
     InterPointCDUpdate t # (if relevant t then [InterTruckCollisions t] else [])"

definition mark :: "(nat \<Rightarrow> nat \<Rightarrow> bool) \<Rightarrow> nat \<Rightarrow> nat list \<Rightarrow> ActorManager \<Rightarrow> ActorManager" where
  "mark participates i ts m =
     fold (\<lambda>t. set_actor t (\<lambda>a. a\<lparr>ar_update_physics := participates t i\<rparr>)) ts m"

definition serial_calls ::
  "(nat \<Rightarrow> nat \<Rightarrow> bool) \<Rightarrow> ActorManager \<Rightarrow> nat \<Rightarrow> nat \<Rightarrow> kernel_call list"
where
  "serial_calls part m i t =
     prepare_calls m i t @
     (if simulated part m i t
      then [CalcForcesEulerCompute t i, CalcForcesEulerFinal t i] @ intra_calls m t
      else [])"






section \<open>Basic facts\<close>

subsection \<open>Slots\<close>

lemma actor_at_set_actor:
  "actor_at (set_actor t f m) u = (if u = t then map_option f (actor_at m t) else actor_at m u)"
  by (simp add: actor_at_def set_actor_def)

lemma set_actor_frame: "(set_actor t f m)\<lparr>m_actors := m_actors m\<rparr> = m"
  by (simp add: set_actor_def)

lemma set_actor_fields [simp]:
  "m_free_actor_slot (set_actor t f m) = m_free_actor_slot m"
  "m_player_actor (set_actor t f m) = m_player_actor m"
  "length (m_actors (set_actor t f m)) = length (m_actors m)"
  by (simp_all add: set_actor_def)

lemma static_idem [simp]: "static (static a) = static a"
  by (simp add: static_def)

lemma static_fields:
  "static a' = static a \<Longrightarrow>
     ar_instance_id a' = ar_instance_id a \<and> ar_velocity a' = ar_velocity a \<and>
     ar_bounding_box a' = ar_bounding_box a \<and>
     ar_predicted_bounding_box a' = ar_predicted_bounding_box a \<and>
     ar_collision_bounding_boxes a' = ar_collision_bounding_boxes a \<and>
     ar_predicted_coll_bounding_boxes a' = ar_predicted_coll_bounding_boxes a \<and>
     ar_net_source_id a' = ar_net_source_id a \<and> ar_net_stream_id a' = ar_net_stream_id a \<and>
     ar_update_physics a' = ar_update_physics a \<and>
     ar_disable_self_collision a' = ar_disable_self_collision a \<and>
     ar_disable_actor2actor_collision a' = ar_disable_actor2actor_collision a"
  by (cases a, cases a') (simp add: static_def)

lemma static_eqI:
  "static a' = static a \<Longrightarrow> ar_sim_state a' = ar_sim_state a \<Longrightarrow>
   ar_sleep_counter a' = ar_sleep_counter a \<Longrightarrow> a' = a"
  by (cases a, cases a') (simp add: static_def)

lemma same_static_refl [simp]: "same_static m m"
  by (simp add: same_static_def)

lemma same_static_trans: "same_static m m1 \<Longrightarrow> same_static m1 m2 \<Longrightarrow> same_static m m2"
  by (cases m, cases m1, cases m2) (simp add: same_static_def)

lemma same_static_length: "same_static m m' \<Longrightarrow> length (m_actors m') = length (m_actors m)"
  by (metis length_map same_static_def)

lemma same_static_fields:
  "same_static m m' \<Longrightarrow>
     m_free_actor_slot m' = m_free_actor_slot m \<and> m_player_actor m' = m_player_actor m \<and>
     m_prev_player_actor m' = m_prev_player_actor m \<and> m_forced_active m' = m_forced_active m \<and>
     m_dt_remainder m' = m_dt_remainder m \<and> m_physics_steps m' = m_physics_steps m \<and>
     m_physics_frames m' = m_physics_frames m \<and> m_simulation_speed m' = m_simulation_speed m \<and>
     m_stream_mismatches m' = m_stream_mismatches m \<and> mrTime m' = mrTime m"
  by (cases m, cases m') (simp add: same_static_def)

lemma same_static_actor:
  assumes "same_static m m'"
  shows "map_option static (actor_at m' t) = map_option static (actor_at m t)"
proof -
  from assms have eq: "map (map_option static) (m_actors m') = map (map_option static) (m_actors m)"
    and len: "length (m_actors m') = length (m_actors m)"
    by (simp_all add: same_static_def same_static_length)
  show ?thesis
  proof (cases "t < length (m_actors m)")
    case True
    with len have "map (map_option static) (m_actors m') ! t = map_option static (m_actors m' ! t)"
      and "map (map_option static) (m_actors m) ! t = map_option static (m_actors m ! t)"
      by simp_all
    with eq True len show ?thesis by (simp add: actor_at_def)
  next
    case False
    with len show ?thesis by (simp add: actor_at_def)
  qed
qed

lemma same_static_None: "same_static m m' \<Longrightarrow> actor_at m' t = None \<longleftrightarrow> actor_at m t = None"
  using same_static_actor [of m m' t] by (metis map_option_is_None)

lemma same_static_Some:
  "same_static m m' \<Longrightarrow> actor_at m t = Some a \<Longrightarrow> \<exists>a'. actor_at m' t = Some a' \<and> static a' = static a"
  using same_static_actor [of m m' t] by (cases "actor_at m' t") auto

lemma same_static_set_actor:
  assumes "\<And>a. static (f a) = static a"
  shows "same_static m (set_actor t f m)"
proof -
  have "map (map_option static) ((m_actors m)[t := map_option f (actor_at m t)])
        = map (map_option static) (m_actors m)"
  proof (cases "t < length (m_actors m)")
    case True
    have "map_option static (map_option f (m_actors m ! t)) = map_option static (m_actors m ! t)"
      by (cases "m_actors m ! t") (simp_all add: assms)
    with True show ?thesis
      by (simp add: map_update actor_at_def list_update_same_conv)
  next
    case False
    then show ?thesis by (simp add: list_update_beyond)
  qed
  then show ?thesis
    by (simp add: same_static_def set_actor_def)
qed

lemma same_static_predict:
  assumes "same_static m m'"
  shows "predictTruckIntersectionCollAABB m' a b scale = predictTruckIntersectionCollAABB m a b scale"
proof -
  have "\<And>t. (actor_at m t = None \<and> actor_at m' t = None) \<or>
            (\<exists>x x'. actor_at m t = Some x \<and> actor_at m' t = Some x' \<and> static x' = static x)"
    using same_static_None [OF assms] same_static_Some [OF assms] by (metis option.exhaust)
  from this [of a] this [of b] show ?thesis
    by (auto simp add: predictTruckIntersectionCollAABB_def dest!: static_fields)
qed

lemma same_static_coll:
  assumes "same_static m m'"
  shows "truckIntersectionCollAABB m' a b scale = truckIntersectionCollAABB m a b scale"
proof -
  have "\<And>t. (actor_at m t = None \<and> actor_at m' t = None) \<or>
            (\<exists>x x'. actor_at m t = Some x \<and> actor_at m' t = Some x' \<and> static x' = static x)"
    using same_static_None [OF assms] same_static_Some [OF assms] by (metis option.exhaust)
  from this [of a] this [of b] show ?thesis
    by (auto simp add: truckIntersectionCollAABB_def dest!: static_fields)
qed

lemma sim_state_at_set_actor:
  "sim_state_at (set_actor t f m) u =
     (if u = t then map_option (\<lambda>a. ar_sim_state (f a)) (actor_at m t) else sim_state_at m u)"
  by (simp add: sim_state_at_def actor_at_set_actor option.map_comp comp_def)

subsection \<open>Activation steps\<close>

lemma activation_step_refl [simp]: "activation_step s s"
  by (auto simp add: activation_step_def)

lemma activation_step_same_static: "activation_step s s' \<Longrightarrow> same_static (fst s) (fst s')"
  by (simp add: activation_step_def)

lemma activation_step_visited: "activation_step s s' \<Longrightarrow> snd s \<subseteq> snd s'"
  by (simp add: activation_step_def)

lemma activation_step_trans:
  assumes s1: "activation_step s s1" and s2: "activation_step s1 s2"
  shows "activation_step s s2"
proof -
  have st: "same_static (fst s) (fst s2)"
    using s1 s2 by (meson activation_step_same_static same_static_trans)
  have vis: "snd s \<subseteq> snd s2" and vis12: "snd s1 \<subseteq> snd s2"
    using s1 s2 by (auto dest: activation_step_visited)
  have "(ar_sim_state a2 = ar_sim_state a \<and>
           (ar_sleep_counter a2 = ar_sleep_counter a \<or>
            (ar_sleep_counter a2 = 0 \<and> ar_sim_state a = LOCAL_SIMULATED \<and>
             (\<exists>j. j \<in> snd s2 \<and> j \<noteq> t \<and> truckIntersectionCollAABB (fst s) t j (6 / 5)))))
        \<or> (ar_sim_state a = LOCAL_SLEEPING \<and> ar_sim_state a2 = LOCAL_SIMULATED \<and>
            ar_sleep_counter a2 = 0 \<and> t \<in> snd s2 \<and>
            (\<exists>j. j \<in> snd s2 \<and> j \<noteq> t \<and> predictTruckIntersectionCollAABB (fst s) t j 1))"
    if a: "actor_at (fst s) t = Some a" and a2: "actor_at (fst s2) t = Some a2" for t a a2
  proof -
    from same_static_Some [OF activation_step_same_static [OF s1] a]
    obtain a1 where a1: "actor_at (fst s1) t = Some a1" by blast
    have c1: "(ar_sim_state a1 = ar_sim_state a \<and>
           (ar_sleep_counter a1 = ar_sleep_counter a \<or>
            (ar_sleep_counter a1 = 0 \<and> ar_sim_state a = LOCAL_SIMULATED \<and>
             (\<exists>j. j \<in> snd s1 \<and> j \<noteq> t \<and> truckIntersectionCollAABB (fst s) t j (6 / 5)))))
        \<or> (ar_sim_state a = LOCAL_SLEEPING \<and> ar_sim_state a1 = LOCAL_SIMULATED \<and>
            ar_sleep_counter a1 = 0 \<and> t \<in> snd s1 \<and>
            (\<exists>j. j \<in> snd s1 \<and> j \<noteq> t \<and> predictTruckIntersectionCollAABB (fst s) t j 1))"
      using s1 a a1 unfolding activation_step_def by blast
    have c2: "(ar_sim_state a2 = ar_sim_state a1 \<and>
           (ar_sleep_counter a2 = ar_sleep_counter a1 \<or>
            (ar_sleep_counter a2 = 0 \<and> ar_sim_state a1 = LOCAL_SIMULATED \<and>
             (\<exists>j. j \<in> snd s2 \<and> j \<noteq> t \<and> truckIntersectionCollAABB (fst s) t j (6 / 5)))))
        \<or> (ar_sim_state a1 = LOCAL_SLEEPING \<and> ar_sim_state a2 = LOCAL_SIMULATED \<and>
            ar_sleep_counter a2 = 0 \<and> t \<in> snd s2 \<and>
            (\<exists>j. j \<in> snd s2 \<and> j \<noteq> t \<and> predictTruckIntersectionCollAABB (fst s) t j 1))"
      using s2 a1 a2 same_static_predict [OF activation_step_same_static [OF s1]]
        same_static_coll [OF activation_step_same_static [OF s1]]
      unfolding activation_step_def by blast
    from c1 c2 vis12 show ?thesis by (elim disjE conjE) auto
  qed
  with st vis show ?thesis unfolding activation_step_def by blast
qed

subsection \<open>Loops that may stop\<close>

lemma fold_bind_None [simp]: "fold (\<lambda>t r. Option.bind r (f t)) ts None = None"
  by (induction ts) simp_all

lemma fold_bind_Cons:
  "fold (\<lambda>t r. Option.bind r (f t)) (t # ts) (Some s) = fold (\<lambda>t r. Option.bind r (f t)) ts (f t s)"
  by simp

lemma fold_bind_induct:
  assumes run: "fold (\<lambda>t r. Option.bind r (f t)) ts (Some s) = Some s'"
    and init: "P [] s"
    and step: "\<And>pre t s1 s2. P pre s1 \<Longrightarrow> t \<in> set ts \<Longrightarrow> f t s1 = Some s2 \<Longrightarrow> P (pre @ [t]) s2"
  shows "P ts s'"
proof -
  have "fold (\<lambda>t r. Option.bind r (f t)) us (Some s1) = Some s' \<Longrightarrow> P pre s1 \<Longrightarrow>
        set us \<subseteq> set ts \<Longrightarrow> P (pre @ us) s'" for us pre s1
  proof (induction us arbitrary: pre s1)
    case Nil
    then show ?case by simp
  next
    case (Cons u us)
    show ?case
    proof (cases "f u s1")
      case None
      with Cons.prems(1) show ?thesis by simp
    next
      case (Some s2)
      with Cons.prems have "P (pre @ [u]) s2" by (auto intro: step)
      moreover from Some Cons.prems(1) have "fold (\<lambda>t r. Option.bind r (f t)) us (Some s2) = Some s'"
        by simp
      ultimately have "P ((pre @ [u]) @ us) s'"
        using Cons.prems(3) by (intro Cons.IH) auto
      then show ?thesis by simp
    qed
  qed
  from this [of ts s "[]"] run init show ?thesis by simp
qed

lemma fold_bind_total:
  assumes init: "Q s"
    and step: "\<And>t s1. Q s1 \<Longrightarrow> t \<in> set ts \<Longrightarrow> \<exists>s2. f t s1 = Some s2 \<and> Q s2"
  shows "\<exists>s'. fold (\<lambda>t r. Option.bind r (f t)) ts (Some s) = Some s' \<and> Q s'"
proof -
  have "Q s1 \<Longrightarrow> set us \<subseteq> set ts \<Longrightarrow>
        \<exists>s'. fold (\<lambda>t r. Option.bind r (f t)) us (Some s1) = Some s' \<and> Q s'" for us s1
  proof (induction us arbitrary: s1)
    case Nil
    then show ?case by simp
  next
    case (Cons u us)
    from step [of s1 u] Cons.prems obtain s2 where "f u s1 = Some s2" "Q s2" by auto
    with Cons.IH [of s2] Cons.prems(2) show ?case by simp
  qed
  from this [of s ts] init show ?thesis by simp
qed

subsection \<open>One activation\<close>

lemma activation_step_reset:
  assumes "sim_state_at m t = Some LOCAL_SIMULATED"
    and "truckIntersectionCollAABB m t j (6 / 5)" and "j \<noteq> t" and "j \<in> vis"
  shows "activation_step (m, vis) (set_actor t reset_sleep_counter m, vis)"
proof -
  have "same_static m (set_actor t reset_sleep_counter m)"
    by (rule same_static_set_actor) (simp add: static_def reset_sleep_counter_def)
  with assms show ?thesis
    by (auto simp add: activation_step_def actor_at_set_actor sim_state_at_def
        reset_sleep_counter_def split: if_splits)
qed

lemma activation_step_mark: "activation_step (m, vis) (m, insert j vis)"
  by (auto simp add: activation_step_def)

lemma activation_step_wake:
  assumes sleeping: "sim_state_at m t = Some LOCAL_SLEEPING"
    and overlap: "predictTruckIntersectionCollAABB m t j 1"
    and neq: "j \<noteq> t" and j: "j \<in> vis"
    and rest: "activation_step (set_actor t wake_up m, vis) s'"
    and t: "t \<in> snd s'"
  shows "activation_step (m, vis) s'"
proof -
  let ?w = "set_actor t wake_up m"
  have w: "same_static m ?w"
    by (rule same_static_set_actor) (simp add: static_def wake_up_def)
  have st: "same_static m (fst s')"
    using w activation_step_same_static [OF rest] by (auto intro: same_static_trans)
  have vis: "vis \<subseteq> snd s'"
    using activation_step_visited [OF rest] by simp
  have "(ar_sim_state a' = ar_sim_state a \<and>
           (ar_sleep_counter a' = ar_sleep_counter a \<or>
            (ar_sleep_counter a' = 0 \<and> ar_sim_state a = LOCAL_SIMULATED \<and>
             (\<exists>j. j \<in> snd s' \<and> j \<noteq> u \<and> truckIntersectionCollAABB m u j (6 / 5)))))
        \<or> (ar_sim_state a = LOCAL_SLEEPING \<and> ar_sim_state a' = LOCAL_SIMULATED \<and>
            ar_sleep_counter a' = 0 \<and> u \<in> snd s' \<and>
            (\<exists>j. j \<in> snd s' \<and> j \<noteq> u \<and> predictTruckIntersectionCollAABB m u j 1))"
    if a: "actor_at m u = Some a" and a': "actor_at (fst s') u = Some a'" for u a a'
  proof (cases "u = t")
    case False
    with a have "actor_at ?w u = Some a" by (simp add: actor_at_set_actor)
    with rest a' same_static_predict [OF w] same_static_coll [OF w] show ?thesis
      unfolding activation_step_def fst_conv snd_conv by blast
  next
    case True
    with a have aw: "actor_at ?w u = Some (wake_up a)" by (simp add: actor_at_set_actor)
    from sleeping a True have sl: "ar_sim_state a = LOCAL_SLEEPING"
      by (simp add: sim_state_at_def)
    have "(ar_sim_state a' = ar_sim_state (wake_up a) \<and>
           (ar_sleep_counter a' = ar_sleep_counter (wake_up a) \<or>
            ar_sleep_counter a' = 0))
        \<or> (ar_sim_state (wake_up a) = LOCAL_SLEEPING \<and> ar_sim_state a' = LOCAL_SIMULATED \<and>
            ar_sleep_counter a' = 0 \<and> u \<in> snd s' \<and>
            (\<exists>j. j \<in> snd s' \<and> j \<noteq> u \<and> predictTruckIntersectionCollAABB ?w u j 1))"
      using rest aw a' unfolding activation_step_def fst_conv snd_conv by blast
    then have "ar_sim_state a' = LOCAL_SIMULATED \<and> ar_sleep_counter a' = 0"
      by (auto simp add: wake_up_def)
    with sl True t j vis neq overlap show ?thesis by auto
  qed
  with st vis show ?thesis unfolding activation_step_def fst_conv snd_conv by blast
qed

lemma activate_simulated_step:
  assumes rec: "\<And>t s s'. recurse t s = Some s' \<Longrightarrow>
             activation_step s s' \<and> (sim_state_at (fst s) t = Some LOCAL_SIMULATED \<longrightarrow> t \<in> snd s')"
    and run: "activate_simulated recurse j t s = Some s1"
    and j: "j \<in> snd s" and neq: "j \<noteq> t"
  shows "activation_step s s1"
proof -
  obtain m vis where s: "s = (m, vis)" by (cases s)
  show ?thesis
  proof (cases "sim_state_at m t = Some LOCAL_SIMULATED \<and> truckIntersectionCollAABB m t j (6 / 5)")
    case True
    with run s have "recurse t (set_actor t reset_sleep_counter m, vis) = Some s1"
      by (simp add: activate_simulated_def)
    from rec [OF this] activation_step_reset [of m t j vis] True s j neq show ?thesis
      by (auto intro: activation_step_trans)
  next
    case False
    with run s show ?thesis by (auto simp add: activate_simulated_def)
  qed
qed

lemma activate_sleeping_step:
  assumes rec: "\<And>t s s'. recurse t s = Some s' \<Longrightarrow>
             activation_step s s' \<and> (sim_state_at (fst s) t = Some LOCAL_SIMULATED \<longrightarrow> t \<in> snd s')"
    and run: "activate_sleeping recurse j t s1 = Some s'"
    and j: "j \<in> snd s1" and neq: "j \<noteq> t"
  shows "activation_step s1 s'"
proof -
  obtain m1 vis1 where s1: "s1 = (m1, vis1)" by (cases s1)
  show ?thesis
  proof (cases "sim_state_at m1 t = Some LOCAL_SLEEPING \<and> predictTruckIntersectionCollAABB m1 t j 1")
    case True
    with run s1 have call: "recurse t (set_actor t wake_up m1, vis1) = Some s'"
      by (simp add: activate_sleeping_def)
    from True have "sim_state_at (set_actor t wake_up m1) t = Some LOCAL_SIMULATED"
      by (auto simp add: sim_state_at_def actor_at_set_actor wake_up_def)
    with rec [OF call] have "activation_step (set_actor t wake_up m1, vis1) s'" and "t \<in> snd s'"
      by simp_all
    with True s1 j neq show ?thesis
      by (auto intro: activation_step_wake)
  next
    case False
    with run s1 show ?thesis by (auto simp add: activate_sleeping_def)
  qed
qed

lemma RecursiveActivation_body_cases:
  assumes "RecursiveActivation_body recurse j t s = Some s'"
  obtains (skip) "t = j \<or> actor_at (fst s) t = None \<or> t \<in> snd s" "s' = s"
  | (visit) s1 where "t \<noteq> j" "actor_at (fst s) t \<noteq> None" "t \<notin> snd s"
      "activate_simulated recurse j t s = Some s1" "activate_sleeping recurse j t s1 = Some s'"
proof (cases "t = j \<or> actor_at (fst s) t = None \<or> t \<in> snd s")
  case True
  with assms have "s' = s" by (cases s) (auto simp add: RecursiveActivation_body_def)
  with True show ?thesis by (rule skip)
next
  case False
  with assms obtain s1 where "activate_simulated recurse j t s = Some s1"
    "activate_sleeping recurse j t s1 = Some s'"
    by (cases s; cases "activate_simulated recurse j t s")
      (auto simp add: RecursiveActivation_body_def)
  with False show ?thesis by (intro visit) auto
qed

lemma RecursiveActivation_body_step:
  assumes rec: "\<And>t s s'. recurse t s = Some s' \<Longrightarrow>
             activation_step s s' \<and> (sim_state_at (fst s) t = Some LOCAL_SIMULATED \<longrightarrow> t \<in> snd s')"
    and body: "RecursiveActivation_body recurse j t s = Some s'"
    and j: "j \<in> snd s"
  shows "activation_step s s'"
  using body
proof (cases rule: RecursiveActivation_body_cases)
  case skip
  then show ?thesis by simp
next
  case (visit s1)
  have step1: "activation_step s s1"
    using rec visit(4) j visit(1) by (intro activate_simulated_step [where recurse = recurse and j = j and t = t]) auto
  have "j \<in> snd s1"
    using j activation_step_visited [OF step1] by auto
  with rec visit(5) have "activation_step s1 s'"
    using visit(1) by (intro activate_sleeping_step [where recurse = recurse and j = j and t = t]) auto
  with step1 show ?thesis by (rule activation_step_trans)
qed

lemma RecursiveActivation_skip:
  "j \<in> vis \<or> actor_at m j = None \<or> sim_state_at m j \<noteq> Some LOCAL_SIMULATED \<Longrightarrow>
   RecursiveActivation (Suc n) j (m, vis) = Some (m, vis)"
  by auto

lemma RecursiveActivation_visit:
  "\<not> (j \<in> vis \<or> actor_at m j = None \<or> sim_state_at m j \<noteq> Some LOCAL_SIMULATED) \<Longrightarrow>
   RecursiveActivation (Suc n) j (m, vis) =
     fold (\<lambda>t r. Option.bind r (RecursiveActivation_body (RecursiveActivation n) j t))
       [0..<m_free_actor_slot m] (Some (m, insert j vis))"
  by auto

declare RecursiveActivation.simps(2) [simp del]

lemma RecursiveActivation_step:
  "RecursiveActivation n j s = Some s' \<Longrightarrow>
     activation_step s s' \<and> (sim_state_at (fst s) j = Some LOCAL_SIMULATED \<longrightarrow> j \<in> snd s')"
proof (induction n arbitrary: j s s')
  case 0
  then show ?case by simp
next
  case (Suc n)
  obtain m vis where s: "s = (m, vis)" by (cases s)
  show ?case
  proof (cases "j \<in> vis \<or> actor_at m j = None \<or> sim_state_at m j \<noteq> Some LOCAL_SIMULATED")
    case True
    with Suc.prems s have "s' = s" by (simp add: RecursiveActivation_skip)
    with True s show ?thesis by (auto simp add: sim_state_at_def)
  next
    case False
    with Suc.prems s have run:
      "fold (\<lambda>t r. Option.bind r (RecursiveActivation_body (RecursiveActivation n) j t))
         [0..<m_free_actor_slot m] (Some (m, insert j vis)) = Some s'"
      by (simp add: RecursiveActivation_visit)
    have "activation_step (m, insert j vis) s' \<and> j \<in> snd s'"
    proof (rule fold_bind_induct [OF run, where P = "\<lambda>pre s1. activation_step (m, insert j vis) s1 \<and> j \<in> snd s1"])
      show "activation_step (m, insert j vis) (m, insert j vis) \<and> j \<in> snd (m, insert j vis)"
        by simp
    next
      fix pre t s1 s2
      assume inv: "activation_step (m, insert j vis) s1 \<and> j \<in> snd s1"
        and body: "RecursiveActivation_body (RecursiveActivation n) j t s1 = Some s2"
      have "activation_step s1 s2"
        using Suc.IH body inv by (intro RecursiveActivation_body_step [where recurse = "RecursiveActivation n"]) auto
      with inv show "activation_step (m, insert j vis) s2 \<and> j \<in> snd s2"
        by (auto intro: activation_step_trans dest: activation_step_visited)
    qed
    with s activation_step_mark [of m vis j] show ?thesis
      by (auto intro: activation_step_trans)
  qed
qed

subsection \<open>Visited actors and closure\<close>

lemma activation_step_simulated:
  assumes "activation_step s s'" and "sim_state_at (fst s) t = Some LOCAL_SIMULATED"
  shows "sim_state_at (fst s') t = Some LOCAL_SIMULATED"
proof -
  from assms(2) obtain a where a: "actor_at (fst s) t = Some a" "ar_sim_state a = LOCAL_SIMULATED"
    by (auto simp add: sim_state_at_def)
  from same_static_Some [OF activation_step_same_static [OF assms(1)] a(1)]
  obtain a' where a': "actor_at (fst s') t = Some a'" by blast
  with assms(1) a have "ar_sim_state a' = LOCAL_SIMULATED"
    unfolding activation_step_def by fastforce
  with a' show ?thesis by (simp add: sim_state_at_def)
qed

lemma activation_step_not_sleeping:
  assumes "activation_step s s'" and "sim_state_at (fst s) t \<noteq> Some LOCAL_SLEEPING"
  shows "sim_state_at (fst s') t \<noteq> Some LOCAL_SLEEPING"
proof
  assume "sim_state_at (fst s') t = Some LOCAL_SLEEPING"
  then obtain a' where a': "actor_at (fst s') t = Some a'" "ar_sim_state a' = LOCAL_SLEEPING"
    by (auto simp add: sim_state_at_def)
  from same_static_None [OF activation_step_same_static [OF assms(1)], of t] a'(1)
  obtain a where a: "actor_at (fst s) t = Some a" by auto
  with assms(1) a' have "ar_sim_state a = LOCAL_SLEEPING"
    unfolding activation_step_def by fastforce
  with a assms(2) show False by (simp add: sim_state_at_def)
qed

lemma wake_closed_step:
  assumes "activation_step s s'" and "wake_closed (fst s) j"
  shows "wake_closed (fst s') j"
  using assms activation_step_not_sleeping [OF assms(1)]
    same_static_predict [OF activation_step_same_static [OF assms(1)]]
    same_static_fields [OF activation_step_same_static [OF assms(1)]]
  unfolding wake_closed_def by metis

lemma visited_simulated_reset:
  "visited_simulated (m, vis) \<Longrightarrow> visited_simulated (set_actor t reset_sleep_counter m, vis)"
  by (auto simp add: visited_simulated_def sim_state_at_def actor_at_set_actor reset_sleep_counter_def)

lemma visited_simulated_wake:
  "visited_simulated (m, vis) \<Longrightarrow> visited_simulated (set_actor t wake_up m, vis)"
  by (auto simp add: visited_simulated_def sim_state_at_def actor_at_set_actor wake_up_def)

lemma closes_refl: "visited_simulated s \<Longrightarrow> closes s s"
  by (simp add: closes_def)

lemma closes_trans:
  assumes "closes s s1" "closes s1 s2" "activation_step s1 s2"
  shows "closes s s2"
  using assms wake_closed_step [OF assms(3)] unfolding closes_def by blast

lemma activate_simulated_closes:
  assumes rec: "\<And>t s s'. RecursiveActivation n t s = Some s' \<Longrightarrow> visited_simulated s \<Longrightarrow> closes s s'"
    and run: "activate_simulated (RecursiveActivation n) j t s = Some s1"
    and vs: "visited_simulated s"
  shows "closes s s1"
proof -
  obtain m vis where s: "s = (m, vis)" by (cases s)
  show ?thesis
  proof (cases "sim_state_at m t = Some LOCAL_SIMULATED \<and> truckIntersectionCollAABB m t j (6 / 5)")
    case True
    with run s have "RecursiveActivation n t (set_actor t reset_sleep_counter m, vis) = Some s1"
      by (simp add: activate_simulated_def)
    from rec [OF this] vs s show ?thesis
      by (auto simp add: closes_def dest: visited_simulated_reset)
  next
    case False
    with run s vs show ?thesis by (auto simp add: activate_simulated_def closes_def)
  qed
qed

lemma activate_sleeping_closes:
  assumes rec: "\<And>t s s'. RecursiveActivation n t s = Some s' \<Longrightarrow> visited_simulated s \<Longrightarrow> closes s s'"
    and run: "activate_sleeping (RecursiveActivation n) j t s1 = Some s'"
    and vs: "visited_simulated s1"
  shows "closes s1 s' \<and>
         (predictTruckIntersectionCollAABB (fst s') t j 1 \<longrightarrow> sim_state_at (fst s') t \<noteq> Some LOCAL_SLEEPING)"
proof -
  obtain m1 vis1 where s1: "s1 = (m1, vis1)" by (cases s1)
  show ?thesis
  proof (cases "sim_state_at m1 t = Some LOCAL_SLEEPING \<and> predictTruckIntersectionCollAABB m1 t j 1")
    case True
    with run s1 have call: "RecursiveActivation n t (set_actor t wake_up m1, vis1) = Some s'"
      by (simp add: activate_sleeping_def)
    from True have "sim_state_at (fst (set_actor t wake_up m1, vis1)) t = Some LOCAL_SIMULATED"
      by (auto simp add: sim_state_at_def actor_at_set_actor wake_up_def)
    with RecursiveActivation_step [OF call] have "sim_state_at (fst s') t = Some LOCAL_SIMULATED"
      by (auto dest: activation_step_simulated)
    moreover from rec [OF call] vs s1 have "closes s1 s'"
      by (auto simp add: closes_def dest: visited_simulated_wake)
    ultimately show ?thesis by simp
  next
    case False
    with run s1 vs show ?thesis by (auto simp add: activate_sleeping_def closes_def)
  qed
qed

lemma RecursiveActivation_body_closes:
  assumes rec: "\<And>t s s'. RecursiveActivation n t s = Some s' \<Longrightarrow> visited_simulated s \<Longrightarrow> closes s s'"
    and body: "RecursiveActivation_body (RecursiveActivation n) j t s = Some s'"
    and vs: "visited_simulated s" and j: "j \<in> snd s"
  shows "closes s s' \<and>
         (t \<noteq> j \<and> predictTruckIntersectionCollAABB (fst s') t j 1
            \<longrightarrow> sim_state_at (fst s') t \<noteq> Some LOCAL_SLEEPING)"
  using body
proof (cases rule: RecursiveActivation_body_cases)
  case skip
  from skip(1) vs have "t \<noteq> j \<longrightarrow> sim_state_at (fst s) t \<noteq> Some LOCAL_SLEEPING"
    by (auto simp add: visited_simulated_def sim_state_at_def)
  with skip(2) vs show ?thesis by (simp add: closes_refl)
next
  case (visit s1)
  have c1: "closes s s1"
    using rec visit(4) vs by (rule activate_simulated_closes)
  then have vs1: "visited_simulated s1" by (simp add: closes_def)
  have c2: "closes s1 s' \<and>
      (predictTruckIntersectionCollAABB (fst s') t j 1 \<longrightarrow> sim_state_at (fst s') t \<noteq> Some LOCAL_SLEEPING)"
    using rec visit(5) vs1 by (rule activate_sleeping_closes)
  have step1: "activation_step s s1"
    using RecursiveActivation_step visit(4) j visit(1)
    by (intro activate_simulated_step [where recurse = "RecursiveActivation n" and j = j and t = t]) auto
  then have "j \<in> snd s1" using j by (auto dest: activation_step_visited)
  with visit(1) have "activation_step s1 s'"
    using RecursiveActivation_step visit(5)
    by (intro activate_sleeping_step [where recurse = "RecursiveActivation n" and j = j and t = t]) auto
  with c1 c2 show ?thesis by (auto intro: closes_trans)
qed

lemma RecursiveActivation_closes:
  "RecursiveActivation n j s = Some s' \<Longrightarrow> visited_simulated s \<Longrightarrow> closes s s'"
proof (induction n arbitrary: j s s')
  case 0
  then show ?case by simp
next
  case (Suc n)
  obtain m vis where s: "s = (m, vis)" by (cases s)
  show ?case
  proof (cases "j \<in> vis \<or> actor_at m j = None \<or> sim_state_at m j \<noteq> Some LOCAL_SIMULATED")
    case True
    with Suc.prems s have "s' = s" by (simp add: RecursiveActivation_skip)
    with Suc.prems show ?thesis by (simp add: closes_refl)
  next
    case False
    let ?s0 = "(m, insert j vis)"
    let ?body = "RecursiveActivation_body (RecursiveActivation n) j"
    from False Suc.prems s have run:
      "fold (\<lambda>t r. Option.bind r (?body t)) [0..<m_free_actor_slot m] (Some ?s0) = Some s'"
      by (simp add: RecursiveActivation_visit)
    have vs0: "visited_simulated ?s0"
      using False Suc.prems(2) s by (auto simp add: visited_simulated_def)
    let ?P = "\<lambda>pre s1. activation_step ?s0 s1 \<and> closes ?s0 s1 \<and>
                (\<forall>t. t \<in> set pre \<and> t \<noteq> j \<and> predictTruckIntersectionCollAABB (fst s1) t j 1
                     \<longrightarrow> sim_state_at (fst s1) t \<noteq> Some LOCAL_SLEEPING)"
    have "?P [0..<m_free_actor_slot m] s'"
    proof (rule fold_bind_induct [OF run, where P = ?P])
      show "?P [] ?s0" using vs0 by (simp add: closes_refl)
    next
      fix pre t s1 s2
      assume inv: "?P pre s1" and body: "?body t s1 = Some s2"
      from inv have j1: "j \<in> snd s1" by (auto dest: activation_step_visited)
      from inv have vs1: "visited_simulated s1" by (simp add: closes_def)
      have step: "activation_step s1 s2"
        using RecursiveActivation_step body j1 by (rule RecursiveActivation_body_step)
      have cl: "closes s1 s2 \<and> (t \<noteq> j \<and> predictTruckIntersectionCollAABB (fst s2) t j 1
            \<longrightarrow> sim_state_at (fst s2) t \<noteq> Some LOCAL_SLEEPING)"
        using Suc.IH body vs1 j1 by (rule RecursiveActivation_body_closes)
      have old: "sim_state_at (fst s2) u \<noteq> Some LOCAL_SLEEPING"
        if "u \<in> set pre" "u \<noteq> j" "predictTruckIntersectionCollAABB (fst s2) u j 1" for u
      proof -
        from that(3) have "predictTruckIntersectionCollAABB (fst s1) u j 1"
          using same_static_predict [OF activation_step_same_static [OF step]] by simp
        with inv that(1,2) have "sim_state_at (fst s1) u \<noteq> Some LOCAL_SLEEPING" by blast
        with step show ?thesis by (rule activation_step_not_sleeping)
      qed
      from inv step cl old show "?P (pre @ [t]) s2"
        by (auto intro: activation_step_trans closes_trans)
    qed
    then have step: "activation_step ?s0 s'" and cl: "closes ?s0 s'"
      and loop: "\<forall>t. t < m_free_actor_slot m \<and> t \<noteq> j \<and> predictTruckIntersectionCollAABB (fst s') t j 1
                     \<longrightarrow> sim_state_at (fst s') t \<noteq> Some LOCAL_SLEEPING"
      by simp_all
    from same_static_fields [OF activation_step_same_static [OF step]] loop
    have "wake_closed (fst s') j" by (simp add: wake_closed_def)
    with cl s show ?thesis by (auto simp add: closes_def)
  qed
qed

subsection \<open>The depth bound is never reached\<close>

lemma unvisited_step: "activation_step s s' \<Longrightarrow> unvisited s' \<le> unvisited s"
proof -
  assume step: "activation_step s s'"
  have "m_free_actor_slot (fst s') = m_free_actor_slot (fst s)"
    using same_static_fields [OF activation_step_same_static [OF step]] by simp
  moreover have "snd s \<subseteq> snd s'" using step by (rule activation_step_visited)
  ultimately show ?thesis
    unfolding unvisited_def by (intro card_mono) auto
qed

lemma unvisited_insert:
  "j < m_free_actor_slot m \<Longrightarrow> j \<notin> vis \<Longrightarrow> unvisited (m, insert j vis) < unvisited (m, vis)"
  unfolding unvisited_def by (intro psubset_card_mono) auto

lemma slots_step: "activation_step s s' \<Longrightarrow> m_free_actor_slot (fst s') = m_free_actor_slot (fst s)"
  using same_static_fields [OF activation_step_same_static] by simp

lemma RecursiveActivation_total:
  "unvisited s < n \<Longrightarrow> j < m_free_actor_slot (fst s) \<Longrightarrow> \<exists>s'. RecursiveActivation n j s = Some s'"
proof (induction n arbitrary: j s)
  case 0
  then show ?case by simp
next
  case (Suc n)
  obtain m vis where s: "s = (m, vis)" by (cases s)
  show ?case
  proof (cases "j \<in> vis \<or> actor_at m j = None \<or> sim_state_at m j \<noteq> Some LOCAL_SIMULATED")
    case True
    with s show ?thesis by (simp add: RecursiveActivation_skip)
  next
    case False
    let ?s0 = "(m, insert j vis)"
    let ?body = "RecursiveActivation_body (RecursiveActivation n) j"
    let ?Q = "\<lambda>s1. unvisited s1 < n \<and> m_free_actor_slot (fst s1) = m_free_actor_slot m \<and> j \<in> snd s1"
    have q0: "?Q ?s0"
      using unvisited_insert [of j m vis] False Suc.prems s by simp
    have "\<exists>s2. ?body t s1 = Some s2 \<and> ?Q s2"
      if q: "?Q s1" and t: "t \<in> set [0..<m_free_actor_slot m]" for t s1
    proof (cases "t = j \<or> actor_at (fst s1) t = None \<or> t \<in> snd s1")
      case True
      with q show ?thesis by (cases s1) (auto simp add: RecursiveActivation_body_def)
    next
      case False
      obtain m1 vis1 where s1: "s1 = (m1, vis1)" by (cases s1)
      from q t s1 have tlt: "t < m_free_actor_slot m1" by simp
      have "\<exists>sa. activate_simulated (RecursiveActivation n) j t s1 = Some sa"
      proof (cases "sim_state_at m1 t = Some LOCAL_SIMULATED \<and> truckIntersectionCollAABB m1 t j (6 / 5)")
        case True
        have "unvisited (set_actor t reset_sleep_counter m1, vis1) < n"
          using q s1 by (auto simp add: unvisited_def)
        from Suc.IH [OF this, of t] tlt True s1 show ?thesis
          by (simp add: activate_simulated_def)
      next
        case False
        with s1 show ?thesis by (auto simp add: activate_simulated_def)
      qed
      then obtain sa where sa: "activate_simulated (RecursiveActivation n) j t s1 = Some sa" ..
      have stepa: "activation_step s1 sa"
        using RecursiveActivation_step sa q False
        by (intro activate_simulated_step [where recurse = "RecursiveActivation n" and j = j and t = t]) auto
      obtain ma visa where sa': "sa = (ma, visa)" by (cases sa)
      have qa: "?Q sa"
        using q unvisited_step [OF stepa] slots_step [OF stepa] activation_step_visited [OF stepa]
        by auto
      have "\<exists>s2. activate_sleeping (RecursiveActivation n) j t sa = Some s2"
      proof (cases "sim_state_at ma t = Some LOCAL_SLEEPING \<and> predictTruckIntersectionCollAABB ma t j 1")
        case True
        have "unvisited (set_actor t wake_up ma, visa) < n"
          using qa sa' by (auto simp add: unvisited_def)
        from Suc.IH [OF this, of t] t qa sa' True show ?thesis
          by (simp add: activate_sleeping_def)
      next
        case False
        with sa' show ?thesis by (auto simp add: activate_sleeping_def)
      qed
      then obtain s2 where s2: "activate_sleeping (RecursiveActivation n) j t sa = Some s2" ..
      have body: "?body t s1 = Some s2"
        using False sa s2 by (cases s1) (auto simp add: RecursiveActivation_body_def)
      have "activation_step s1 s2"
        using RecursiveActivation_step body q by (intro RecursiveActivation_body_step) auto
      then have "?Q s2"
        using q unvisited_step [of s1 s2] slots_step [of s1 s2] activation_step_visited [of s1 s2]
        by auto
      with body show ?thesis by blast
    qed
    from fold_bind_total [where Q = ?Q and f = ?body, OF q0 this]
    obtain s' where "fold (\<lambda>t r. Option.bind r (?body t)) [0..<m_free_actor_slot m] (Some ?s0) = Some s'"
      by blast
    with False s show ?thesis by (simp add: RecursiveActivation_visit)
  qed
qed

subsection \<open>The reachability pass\<close>

lemma GetPlayerActorInternal_Some:
  "GetPlayerActorInternal m = Some a \<Longrightarrow>
     nat (m_player_actor m) < m_free_actor_slot m \<and> actor_at m (nat (m_player_actor m)) = Some a \<and>
     0 \<le> m_player_actor m"
  by (auto simp add: GetPlayerActorInternal_def getTruck_def split: if_splits)

lemma same_static_player_reset: "same_static m (player_reset m)"
  by (auto simp add: player_reset_def split: option.splits
      intro!: same_static_set_actor simp add: static_def reset_sleep_counter_def)

lemma sim_state_at_reset [simp]:
  "sim_state_at (set_actor u reset_sleep_counter m) t = sim_state_at m t"
  by (cases "actor_at m u")
    (auto simp add: sim_state_at_def actor_at_set_actor reset_sleep_counter_def)

lemma sim_state_at_player_reset [simp]: "sim_state_at (player_reset m) t = sim_state_at m t"
  by (simp add: player_reset_def split: option.splits)

lemma unvisited_empty: "unvisited (m, {}) = m_free_actor_slot m"
  by (simp add: unvisited_def)

lemma visited_simulated_empty [simp]: "visited_simulated (m, {})"
  by (simp add: visited_simulated_def)

lemma closes_same_visited: "closes (m0, vis) s' \<Longrightarrow> closes (m1, vis) s'"
  by (simp add: closes_def)

lemma UpdateSleepingState_reach_props:
  "\<exists>m' vis. UpdateSleepingState_reach m = Some (m', vis) \<and>
     activation_step (player_reset m, {}) (m', vis) \<and> closes (player_reset m, {}) (m', vis) \<and>
     (\<forall>ct. GetPlayerActorInternal m = Some ct \<and> ar_sim_state ct = LOCAL_SIMULATED
           \<longrightarrow> nat (m_player_actor m) \<in> vis)"
proof -
  let ?depth = "Suc (m_free_actor_slot m)"
  let ?p = "nat (m_player_actor m)"
  let ?start = "(player_reset m, {}::nat set)"
  let ?Q = "\<lambda>s1. activation_step ?start s1 \<and> closes ?start s1 \<and>
     (\<forall>ct. GetPlayerActorInternal m = Some ct \<and> ar_sim_state ct = LOCAL_SIMULATED \<longrightarrow> ?p \<in> snd s1)"
  let ?r0 = "case GetPlayerActorInternal m of
               Some current_truck \<Rightarrow>
                 if ar_sim_state current_truck = LOCAL_SIMULATED
                 then RecursiveActivation ?depth ?p (set_actor ?p reset_sleep_counter m, {})
                 else Some (m, {})
             | None \<Rightarrow> Some (m, {})"
  let ?f = "\<lambda>t s. case s of (m, visited) \<Rightarrow>
              if sim_state_at m t = Some LOCAL_SIMULATED \<and> sleep_counter_at m t = Some 0
              then RecursiveActivation ?depth t (m, visited)
              else Some (m, visited)"
  have slots: "m_free_actor_slot (player_reset m) = m_free_actor_slot m"
    using same_static_fields [OF same_static_player_reset [of m]] by simp
  have r0: "\<exists>s0. ?r0 = Some s0 \<and> ?Q s0"
  proof (cases "GetPlayerActorInternal m")
    case None
    then show ?thesis by (simp add: player_reset_def closes_refl)
  next
    case (Some ct)
    show ?thesis
    proof (cases "ar_sim_state ct = LOCAL_SIMULATED")
      case False
      with Some show ?thesis by (simp add: player_reset_def closes_refl)
    next
      case True
      with Some have pr: "player_reset m = set_actor ?p reset_sleep_counter m"
        by (simp add: player_reset_def)
      from GetPlayerActorInternal_Some [OF Some] have plt: "?p < m_free_actor_slot m"
        and pa: "actor_at m ?p = Some ct" by simp_all
      have "unvisited ?start < ?depth" "?p < m_free_actor_slot (fst ?start)"
        using plt slots by (simp_all add: unvisited_empty)
      from RecursiveActivation_total [OF this]
      obtain s0 where s0: "RecursiveActivation ?depth ?p ?start = Some s0" by blast
      from pa True have "sim_state_at m ?p = Some LOCAL_SIMULATED"
        by (simp add: sim_state_at_def)
      then have "sim_state_at (fst ?start) ?p = Some LOCAL_SIMULATED"
        by simp
      with RecursiveActivation_step [OF s0] RecursiveActivation_closes [OF s0]
      have "?Q s0" by simp
      with s0 Some True pr show ?thesis by simp
    qed
  qed
  then obtain s0 where s0: "?r0 = Some s0" and q0: "?Q s0" by blast
  have "\<exists>s2. ?f t s1 = Some s2 \<and> ?Q s2"
    if q: "?Q s1" and t: "t \<in> set [0..<m_free_actor_slot m]" for t s1
  proof -
    obtain m1 vis1 where s1: "s1 = (m1, vis1)" by (cases s1)
    show ?thesis
    proof (cases "sim_state_at m1 t = Some LOCAL_SIMULATED \<and> sleep_counter_at m1 t = Some 0")
      case False
      with q s1 show ?thesis by auto
    next
      case True
      from q have step1: "activation_step ?start s1" by simp
      have "unvisited s1 < ?depth"
        using unvisited_step [OF step1] slots by (simp add: unvisited_empty)
      moreover have "t < m_free_actor_slot (fst s1)"
        using slots_step [OF step1] slots t by simp
      ultimately obtain s2 where s2: "RecursiveActivation ?depth t s1 = Some s2"
        using RecursiveActivation_total by blast
      from q have "visited_simulated s1" by (simp add: closes_def)
      with RecursiveActivation_step [OF s2] RecursiveActivation_closes [OF s2] q
      have "?Q s2"
        by (auto intro: activation_step_trans closes_trans dest: activation_step_visited)
      with s2 True s1 show ?thesis by simp
    qed
  qed
  from fold_bind_total [where Q = ?Q and f = ?f and ts = "[0..<m_free_actor_slot m]", OF q0 this]
  obtain s' where "fold (\<lambda>t r. Option.bind r (?f t)) [0..<m_free_actor_slot m] (Some s0) = Some s'"
    and "?Q s'" by blast
  with s0 have "UpdateSleepingState_reach m = Some s' \<and> ?Q s'"
    by (simp add: UpdateSleepingState_reach_def Let_def)
  then show ?thesis by (cases s') auto
qed

subsection \<open>Timers and the player's actor\<close>

lemma same_static_fold_set_actor:
  assumes "\<And>a. static (f a) = static a"
  shows "same_static m (fold (\<lambda>t m. set_actor t f m) ts m)"
proof (induction ts arbitrary: m)
  case Nil
  show ?case by simp
next
  case (Cons t ts)
  have "same_static m (set_actor t f m)" using assms by (rule same_static_set_actor)
  with Cons [of "set_actor t f m"] show ?case by (auto intro: same_static_trans)
qed


lemma static_sleep_tick [simp]: "static (sleep_tick dt a) = static a"
  by (simp add: sleep_tick_def static_def Let_def)

lemma same_static_timers: "same_static m (UpdateSleepingState_timers dt m)"
  by (simp add: UpdateSleepingState_timers_def same_static_fold_set_actor)


lemma same_static_player: "same_static m (UpdateSleepingState_player m)"
  by (auto simp add: UpdateSleepingState_player_def split: option.splits
      intro!: same_static_set_actor simp add: static_def)



lemma UpdateSleepingState_total:
  "\<exists>m' vis. UpdateSleepingState dt m = Some (m', vis) \<and> same_static m m'"
proof -
  let ?m2 = "UpdateSleepingState_player (UpdateSleepingState_timers dt m)"
  from UpdateSleepingState_reach_props [of ?m2]
  obtain m' vis where run: "UpdateSleepingState_reach ?m2 = Some (m', vis)"
    and step: "activation_step (player_reset ?m2, {}) (m', vis)" by blast
  have "same_static m ?m2"
    using same_static_timers same_static_player by (blast intro: same_static_trans)
  with same_static_player_reset [of ?m2] activation_step_same_static [OF step]
  have "same_static m m'" by (auto intro: same_static_trans)
  with run show ?thesis by (simp add: UpdateSleepingState_def)
qed

subsection \<open>Slot allocation and the stream query\<close>

declare GetFreeTruckSlot_from.simps [simp del]
declare checkStreamsOK_from.simps [simp del]

lemma GetFreeTruckSlot_from_skip:
  "t < MAX_TRUCKS m \<Longrightarrow> \<not> (actor_at m t = None \<and> m_free_actor_slot m \<le> t) \<Longrightarrow>
   GetFreeTruckSlot_from t m = GetFreeTruckSlot_from (t + 1) m"
  by (subst GetFreeTruckSlot_from.simps) auto

lemma GetFreeTruckSlot_from_hit:
  "t < MAX_TRUCKS m \<Longrightarrow> actor_at m t = None \<Longrightarrow> m_free_actor_slot m \<le> t \<Longrightarrow>
   GetFreeTruckSlot_from t m = (Some t, m\<lparr>m_free_actor_slot := t + 1\<rparr>)"
  by (subst GetFreeTruckSlot_from.simps) auto

lemma GetFreeTruckSlot_from_end:
  "\<not> t < MAX_TRUCKS m \<Longrightarrow> GetFreeTruckSlot_from t m = (None, m)"
  by (subst GetFreeTruckSlot_from.simps) auto

lemma GetFreeTruckSlot_from_None:
  "fst (GetFreeTruckSlot_from t m) = None \<longleftrightarrow>
     (\<forall>i. t \<le> i \<and> i < MAX_TRUCKS m \<longrightarrow> \<not> (actor_at m i = None \<and> m_free_actor_slot m \<le> i))"
proof (induction t m rule: GetFreeTruckSlot_from.induct)
  case (1 t m)
  let ?free = "\<lambda>i. actor_at m i = None \<and> m_free_actor_slot m \<le> i"
  show ?case
  proof (cases "t < MAX_TRUCKS m")
    case False
    then show ?thesis by (auto simp add: GetFreeTruckSlot_from_end)
  next
    case True
    show ?thesis
    proof (cases "?free t")
      case free: True
      with True have "fst (GetFreeTruckSlot_from t m) = Some t"
        by (simp add: GetFreeTruckSlot_from_hit)
      with True free show ?thesis by auto
    next
      case occupied: False
      have "(\<forall>i. t \<le> i \<and> i < MAX_TRUCKS m \<longrightarrow> \<not> ?free i)
            \<longleftrightarrow> (\<forall>i. t + 1 \<le> i \<and> i < MAX_TRUCKS m \<longrightarrow> \<not> ?free i)"
        using occupied by (metis Suc_eq_plus1 Suc_leI le_neq_implies_less add_leD1)
      moreover have "GetFreeTruckSlot_from t m = GetFreeTruckSlot_from (t + 1) m"
        using True occupied by (rule GetFreeTruckSlot_from_skip)
      ultimately show ?thesis
        using "1.IH" [OF True occupied] by simp
    qed
  qed
qed

lemma GetFreeTruckSlot_from_None_state:
  "fst (GetFreeTruckSlot_from t m) = None \<Longrightarrow> snd (GetFreeTruckSlot_from t m) = m"
proof (induction t m rule: GetFreeTruckSlot_from.induct)
  case (1 t m)
  show ?case
  proof (cases "t < MAX_TRUCKS m")
    case False
    then show ?thesis by (simp add: GetFreeTruckSlot_from_end)
  next
    case True
    show ?thesis
    proof (cases "actor_at m t = None \<and> m_free_actor_slot m \<le> t")
      case free: True
      with True "1.prems" show ?thesis
        by (simp add: GetFreeTruckSlot_from_hit)
    next
      case occupied: False
      with True "1.prems" "1.IH" show ?thesis
        by (simp add: GetFreeTruckSlot_from_skip)
    qed
  qed
qed

lemma GetFreeTruckSlot_from_Some:
  "GetFreeTruckSlot_from t m = (Some k, m') \<Longrightarrow>
     t \<le> k \<and> k < MAX_TRUCKS m \<and> actor_at m k = None \<and> m_free_actor_slot m \<le> k \<and>
     (\<forall>i. t \<le> i \<and> i < k \<longrightarrow> \<not> (actor_at m i = None \<and> m_free_actor_slot m \<le> i)) \<and>
     m' = m\<lparr>m_free_actor_slot := Suc k\<rparr>"
proof (induction t m rule: GetFreeTruckSlot_from.induct)
  case (1 t m)
  have lt: "t < MAX_TRUCKS m"
    using "1.prems" by (cases "t < MAX_TRUCKS m") (simp_all add: GetFreeTruckSlot_from_end)
  show ?case
  proof (cases "actor_at m t = None \<and> m_free_actor_slot m \<le> t")
    case True
    with lt "1.prems" show ?thesis
      by (auto simp add: GetFreeTruckSlot_from_hit)
  next
    case False
    with lt "1.prems" have rec: "GetFreeTruckSlot_from (t + 1) m = (Some k, m')"
      by (simp add: GetFreeTruckSlot_from_skip)
    from "1.IH" [OF lt False rec] False show ?thesis
      by (metis Suc_eq_plus1 Suc_leI le_neq_implies_less add_leD1)
  qed
qed

lemma checkStreamsOK_from_eq:
  "checkStreamsOK_from sourceid t m =
     (if \<exists>i a. t \<le> i \<and> i < m_free_actor_slot m \<and> actor_at m i = Some a \<and>
                ar_sim_state a = NETWORKED_OK \<and> ar_net_source_id a = sourceid
      then 1 else 2)"
proof (induction sourceid t m rule: checkStreamsOK_from.induct)
  case (1 sourceid t m)
  let ?hit = "\<lambda>i. \<exists>a. actor_at m i = Some a \<and> ar_sim_state a = NETWORKED_OK \<and> ar_net_source_id a = sourceid"
  show ?case
  proof (cases "t < m_free_actor_slot m")
    case False
    then show ?thesis by (simp add: checkStreamsOK_from.simps [of sourceid t m])
  next
    case True
    show ?thesis
    proof (cases "?hit t")
      case True
      with \<open>t < m_free_actor_slot m\<close> show ?thesis
        by (auto simp add: checkStreamsOK_from.simps [of sourceid t m])
    next
      case False
      have split: "(\<exists>i. t \<le> i \<and> i < m_free_actor_slot m \<and> ?hit i) \<longleftrightarrow>
                   (\<exists>i. t + 1 \<le> i \<and> i < m_free_actor_slot m \<and> ?hit i)"
        using False by (metis Suc_eq_plus1 Suc_leI le_neq_implies_less add_leD1)
      from False True "1.IH" split show ?thesis
        by (auto simp add: checkStreamsOK_from.simps [of sourceid t m] split: option.splits)
    qed
  qed
qed

lemma float_to_int_nonneg: "0 \<le> v \<Longrightarrow> float_to_int v = \<lfloor>v\<rfloor>"
  by (simp add: float_to_int_def)


subsection \<open>Registry operations\<close>

lemma same_static_reg_inv:
  assumes "same_static m m'" and "reg_inv m"
  shows "reg_inv m'"
proof -
  have "i < m_free_actor_slot m' \<and> ar_instance_id a' = i" if "actor_at m' i = Some a'" for i a'
  proof -
    from same_static_None [OF assms(1), of i] that obtain a where a: "actor_at m i = Some a" by auto
    from same_static_Some [OF assms(1) a] that have "static a' = static a" by simp
    with static_fields [OF this] a assms(2) same_static_fields [OF assms(1)] show ?thesis
      by (simp add: reg_inv_def)
  qed
  with assms same_static_fields [OF assms(1)] same_static_length [OF assms(1)] show ?thesis
    by (simp add: reg_inv_def MAX_TRUCKS_def)
qed

lemma reg_inv_player [simp]:
  "reg_inv (m\<lparr>m_prev_player_actor := q, m_player_actor := p\<rparr>) = reg_inv m"
  by (simp add: reg_inv_def MAX_TRUCKS_def actor_at_def)

lemma setCurrentTruck_total:
  "\<exists>m'. setCurrentTruck p m = Some m' \<and>
        same_static (m\<lparr>m_prev_player_actor := m_player_actor m, m_player_actor := p\<rparr>) m'"
  using UpdateSleepingState_total [of 0 "m\<lparr>m_prev_player_actor := m_player_actor m, m_player_actor := p\<rparr>"]
  by (auto simp add: setCurrentTruck_def)

lemma setCurrentTruck_slots:
  assumes "setCurrentTruck p m = Some m'"
  shows "m_free_actor_slot m' = m_free_actor_slot m \<and> length (m_actors m') = length (m_actors m) \<and>
         (\<forall>i. actor_at m' i = None \<longleftrightarrow> actor_at m i = None) \<and> (reg_inv m \<longrightarrow> reg_inv m') \<and>
         m_player_actor m' = p"
proof -
  let ?m1 = "m\<lparr>m_prev_player_actor := m_player_actor m, m_player_actor := p\<rparr>"
  from setCurrentTruck_total [of p m] assms have st: "same_static ?m1 m'" by simp
  have "actor_at ?m1 i = actor_at m i" for i by (simp add: actor_at_def)
  with same_static_fields [OF st] same_static_length [OF st] same_static_None [OF st]
    same_static_reg_inv [OF st]
  show ?thesis by simp
qed

lemma actor_at_clear:
  "actor_at (m\<lparr>m_actors := (m_actors m)[i := None]\<rparr>) u = (if u = i then None else actor_at m u)"
  by (simp add: actor_at_def)

lemma DeleteTruck_props:
  "\<exists>m'. DeleteTruck b m = Some m' \<and> m_free_actor_slot m' = m_free_actor_slot m \<and>
        length (m_actors m') = length (m_actors m) \<and>
        (\<forall>x. b = Some x \<longrightarrow> actor_at m' (ar_instance_id x) = None \<and>
              (\<forall>u. u \<noteq> ar_instance_id x \<longrightarrow> (actor_at m' u = None \<longleftrightarrow> actor_at m u = None))) \<and>
        (b = None \<longrightarrow> m' = m) \<and> (reg_inv m \<longrightarrow> reg_inv m')"
proof (cases b)
  case None
  then show ?thesis by (simp add: DeleteTruck_def)
next
  case (Some x)
  let ?i = "ar_instance_id x"
  obtain m1 where m1: "(if m_player_actor m = int ?i then setCurrentTruck (- 1) m else Some m) = Some m1"
    using setCurrentTruck_total [of "- 1" m] by (cases "m_player_actor m = int ?i") auto
  have p1: "m_free_actor_slot m1 = m_free_actor_slot m \<and> length (m_actors m1) = length (m_actors m) \<and>
         (\<forall>i. actor_at m1 i = None \<longleftrightarrow> actor_at m i = None) \<and> (reg_inv m \<longrightarrow> reg_inv m1)"
    using m1 setCurrentTruck_slots [of "- 1" m m1] by (cases "m_player_actor m = int ?i") auto
  let ?m' = "m1\<lparr>m_actors := (m_actors m1)[?i := None]\<rparr>"
  have run: "DeleteTruck b m = Some ?m'"
    using Some m1 by (simp add: DeleteTruck_def)
  have "reg_inv m1 \<Longrightarrow> reg_inv ?m'"
    by (auto simp add: reg_inv_def MAX_TRUCKS_def actor_at_clear split: if_splits)
  with run p1 Some show ?thesis
    by (auto simp add: actor_at_clear)
qed

lemma CleanUpAllTrucks_fold:
  "k \<le> length (m_actors m) \<Longrightarrow>
   fold (\<lambda>i m. if actor_at m i = None then m else m\<lparr>m_actors := (m_actors m)[i := None]\<rparr>) [0..<k] m
     = m\<lparr>m_actors := replicate k None @ drop k (m_actors m)\<rparr>"
proof (induction k)
  case 0
  then show ?case by simp
next
  case (Suc k)
  let ?xs = "replicate k None @ drop k (m_actors m)"
  have upd: "?xs[k := None] = replicate (Suc k) None @ drop (Suc k) (m_actors m)"
    using Suc.prems
    by (simp add: list_update_append replicate_append_same upd_conv_take_nth_drop
        flip: Cons_nth_drop_Suc)
  have "?xs ! k = None \<Longrightarrow> ?xs = ?xs[k := None]"
    by (metis list_update_id)
  with Suc upd show ?case
    by (auto simp add: actor_at_def simp del: replicate_Suc)
qed

lemma CleanUpAllTrucks_props:
  assumes "m_free_actor_slot m \<le> MAX_TRUCKS m"
  shows "m_free_actor_slot (CleanUpAllTrucks m) = m_free_actor_slot m \<and>
         m_player_actor (CleanUpAllTrucks m) = - 1 \<and>
         length (m_actors (CleanUpAllTrucks m)) = length (m_actors m) \<and>
         (\<forall>i. actor_at (CleanUpAllTrucks m) i =
               (if i < m_free_actor_slot m then None else actor_at m i))"
proof -
  from assms have "CleanUpAllTrucks m =
      m\<lparr>m_actors := replicate (m_free_actor_slot m) None @ drop (m_free_actor_slot m) (m_actors m),
        m_player_actor := - 1\<rparr>"
    by (simp add: CleanUpAllTrucks_def CleanUpAllTrucks_fold MAX_TRUCKS_def)
  with assms show ?thesis
    by (auto simp add: MAX_TRUCKS_def actor_at_def nth_append)
qed


lemma CleanUpAllTrucks_frame:
  "m_free_actor_slot (CleanUpAllTrucks m) = m_free_actor_slot m \<and>
   m_player_actor (CleanUpAllTrucks m) = - 1"
proof -
  have "m_free_actor_slot
          (fold (\<lambda>i m. if actor_at m i = None then m else m\<lparr>m_actors := (m_actors m)[i := None]\<rparr>) ts m)
        = m_free_actor_slot m" for ts
    by (induction ts arbitrary: m) simp_all
  then show ?thesis by (simp add: CleanUpAllTrucks_def)
qed

lemma GetFreeTruckSlot_cases:
  obtains (full) "GetFreeTruckSlot m = (None, m)"
      "\<forall>i. m_free_actor_slot m \<le> i \<and> i < MAX_TRUCKS m \<longrightarrow> actor_at m i \<noteq> None"
  | (slot) t where "GetFreeTruckSlot m = (Some t, m\<lparr>m_free_actor_slot := Suc t\<rparr>)"
      "m_free_actor_slot m \<le> t" "t < MAX_TRUCKS m" "actor_at m t = None"
      "\<forall>i. m_free_actor_slot m \<le> i \<and> i < t \<longrightarrow> actor_at m i \<noteq> None"
proof (cases "fst (GetFreeTruckSlot m)")
  case None
  then have "GetFreeTruckSlot m = (None, m)"
    using GetFreeTruckSlot_from_None_state [of 0 m]
    by (simp add: GetFreeTruckSlot_def prod_eq_iff)
  moreover from None have "\<forall>i. m_free_actor_slot m \<le> i \<and> i < MAX_TRUCKS m \<longrightarrow> actor_at m i \<noteq> None"
    using GetFreeTruckSlot_from_None [of 0 m] by (auto simp add: GetFreeTruckSlot_def)
  ultimately show ?thesis by (rule full)
next
  case (Some t)
  then have "GetFreeTruckSlot_from 0 m = (Some t, snd (GetFreeTruckSlot_from 0 m))"
    by (simp add: GetFreeTruckSlot_def prod_eq_iff)
  from GetFreeTruckSlot_from_Some [OF this] Some show ?thesis
    by (intro slot [of t]) (auto simp add: GetFreeTruckSlot_def prod_eq_iff)
qed

lemma reg_inv_advance:
  "reg_inv m \<Longrightarrow> m_free_actor_slot m \<le> t \<Longrightarrow> t < MAX_TRUCKS m \<Longrightarrow>
   reg_inv (m\<lparr>m_free_actor_slot := Suc t\<rparr>)"
proof -
  assume inv: "reg_inv m" and le: "m_free_actor_slot m \<le> t" and lt: "t < MAX_TRUCKS m"
  have same: "actor_at (m\<lparr>m_free_actor_slot := Suc t\<rparr>) i = actor_at m i" for i
    by (simp add: actor_at_def)
  have "i < Suc t \<and> ar_instance_id a = i" if "actor_at m i = Some a" for i a
    using inv that le unfolding reg_inv_def by fastforce
  with lt show ?thesis
    by (simp add: reg_inv_def same MAX_TRUCKS_def)
qed

lemma reg_inv_store:
  "reg_inv (m\<lparr>m_free_actor_slot := Suc t\<rparr>) \<Longrightarrow>
   reg_inv (m\<lparr>m_free_actor_slot := Suc t, m_actors := (m_actors m)[t := Some (new_Actor b0 t)]\<rparr>)"
  by (auto simp add: reg_inv_def MAX_TRUCKS_def actor_at_def new_Actor_def nth_list_update)

lemma CreateLocalRigInstance_full:
  "GetFreeTruckSlot m = (None, m1) \<Longrightarrow> CreateLocalRigInstance b0 m = Some (None, m1)"
  by (simp add: CreateLocalRigInstance_def)

lemma CreateLocalRigInstance_valid:
  "GetFreeTruckSlot m = (Some t, m1) \<Longrightarrow> ar_sim_state b0 \<noteq> INVALID \<Longrightarrow>
   CreateLocalRigInstance b0 m =
     Some (Some (new_Actor b0 t), m1\<lparr>m_actors := (m_actors m1)[t := Some (new_Actor b0 t)]\<rparr>)"
  by (simp add: CreateLocalRigInstance_def new_Actor_def Let_def)

lemma CreateLocalRigInstance_invalid:
  "GetFreeTruckSlot m = (Some t, m1) \<Longrightarrow> ar_sim_state b0 = INVALID \<Longrightarrow>
   CreateLocalRigInstance b0 m = map_option (Pair None) (DeleteTruck (Some (new_Actor b0 t)) m1)"
  by (simp add: CreateLocalRigInstance_def new_Actor_def)

lemma registry_step_props:
  "\<exists>ts m'. registry_step opr m = Some (ts, m') \<and>
     m_free_actor_slot m \<le> m_free_actor_slot m' \<and> distinct ts \<and>
     (\<forall>t. t \<in> set ts \<longrightarrow> m_free_actor_slot m \<le> t \<and> t < m_free_actor_slot m') \<and>
     (reg_inv m \<longrightarrow> reg_inv m')"
proof (cases opr)
  case (Spawn b0)
  show ?thesis
  proof (cases rule: GetFreeTruckSlot_cases [where m = m])
    case full
    with Spawn show ?thesis
      by (simp add: registry_step_def CreateLocalRigInstance_full)
  next
    case (slot t)
    let ?m1 = "m\<lparr>m_free_actor_slot := Suc t\<rparr>"
    have inv1: "reg_inv m \<Longrightarrow> reg_inv ?m1"
      using slot by (intro reg_inv_advance)
    show ?thesis
    proof (cases "ar_sim_state b0 = INVALID")
      case True
      from DeleteTruck_props [of "Some (new_Actor b0 t)" ?m1]
      obtain m' where "DeleteTruck (Some (new_Actor b0 t)) ?m1 = Some m'"
        "m_free_actor_slot m' = Suc t" "reg_inv ?m1 \<longrightarrow> reg_inv m'"
        by auto
      with Spawn slot True inv1 show ?thesis
        by (auto simp add: registry_step_def CreateLocalRigInstance_invalid)
    next
      case False
      with Spawn slot inv1 reg_inv_store [where m = m and t = t and ?b0.0 = b0] show ?thesis
        by (auto simp add: registry_step_def CreateLocalRigInstance_valid)
    qed
  qed
next
  case (Delete i)
  from DeleteTruck_props [of "getTruck m (int i)" m] Delete show ?thesis
    by (auto simp add: registry_step_def)
next
  case ClearAll
  have "reg_inv m \<Longrightarrow> reg_inv (CleanUpAllTrucks m)"
  proof -
    assume inv: "reg_inv m"
    then have "m_free_actor_slot m \<le> MAX_TRUCKS m" by (simp add: reg_inv_def)
    from CleanUpAllTrucks_props [OF this]
    have p: "m_free_actor_slot (CleanUpAllTrucks m) = m_free_actor_slot m"
      "length (m_actors (CleanUpAllTrucks m)) = length (m_actors m)"
      "\<And>i. actor_at (CleanUpAllTrucks m) i = (if i < m_free_actor_slot m then None else actor_at m i)"
      by simp_all
    have "i < m_free_actor_slot m \<and> ar_instance_id a = i"
      if "actor_at (CleanUpAllTrucks m) i = Some a" for i a
      using that inv p(3) [of i] unfolding reg_inv_def by (cases "i < m_free_actor_slot m") auto
    with inv p(1,2) show ?thesis
      by (simp add: reg_inv_def MAX_TRUCKS_def)
  qed
  with ClearAll CleanUpAllTrucks_frame [of m] show ?thesis
    by (simp add: registry_step_def)
qed

lemma registry_run_props:
  "\<exists>ts m'. registry_run oprs m = Some (ts, m') \<and>
     m_free_actor_slot m \<le> m_free_actor_slot m' \<and> distinct ts \<and>
     (\<forall>t. t \<in> set ts \<longrightarrow> m_free_actor_slot m \<le> t \<and> t < m_free_actor_slot m') \<and>
     (reg_inv m \<longrightarrow> reg_inv m')"
proof (induction oprs arbitrary: m)
  case Nil
  show ?case by simp
next
  case (Cons opr oprs)
  from registry_step_props [of opr m] obtain ts1 m1 where
    step: "registry_step opr m = Some (ts1, m1)" and
    s1: "m_free_actor_slot m \<le> m_free_actor_slot m1" "distinct ts1"
      "\<forall>t. t \<in> set ts1 \<longrightarrow> m_free_actor_slot m \<le> t \<and> t < m_free_actor_slot m1"
      "reg_inv m \<longrightarrow> reg_inv m1"
    by blast
  from Cons [of m1] obtain ts2 m2 where
    run: "registry_run oprs m1 = Some (ts2, m2)" and
    s2: "m_free_actor_slot m1 \<le> m_free_actor_slot m2" "distinct ts2"
      "\<forall>t. t \<in> set ts2 \<longrightarrow> m_free_actor_slot m1 \<le> t \<and> t < m_free_actor_slot m2"
      "reg_inv m1 \<longrightarrow> reg_inv m2"
    by blast
  have "registry_run (opr # oprs) m = Some (ts1 @ ts2, m2)"
    using step run by simp
  moreover have "distinct (ts1 @ ts2)"
    using s1 s2 by fastforce
  moreover have "\<forall>t. t \<in> set (ts1 @ ts2) \<longrightarrow> m_free_actor_slot m \<le> t \<and> t < m_free_actor_slot m2"
    using s1 s2 by fastforce
  ultimately show ?case using s1 s2 by auto
qed

lemmas example_defs = example_box_def example_actor_def example_manager_def

lemmas GetFreeTruckSlot_eval =
  GetFreeTruckSlot_def GetFreeTruckSlot_from_skip GetFreeTruckSlot_from_hit GetFreeTruckSlot_from_end
  MAX_TRUCKS_def actor_at_def


section \<open>Claims\<close>

text \<open>
  C5, as amended. \<^verbatim>\<open>GetFreeTruckSlot\<close> returns the lowest empty slot at or above the
  high-water mark and sets the mark to that index plus one. It fails, leaving the
  manager as it was, exactly when no slot at or above the mark is empty: an empty slot
  below the mark is never handed out.
\<close>

theorem GetFreeTruckSlot_lowest_above_mark:
  "(fst (GetFreeTruckSlot m) = None \<longleftrightarrow>
      (\<forall>i. m_free_actor_slot m \<le> i \<and> i < MAX_TRUCKS m \<longrightarrow> actor_at m i \<noteq> None)) \<and>
   (fst (GetFreeTruckSlot m) = None \<longrightarrow> snd (GetFreeTruckSlot m) = m) \<and>
   (\<forall>t. fst (GetFreeTruckSlot m) = Some t \<longrightarrow>
      m_free_actor_slot m \<le> t \<and> t < MAX_TRUCKS m \<and> actor_at m t = None \<and>
      (\<forall>i. m_free_actor_slot m \<le> i \<and> i < t \<longrightarrow> actor_at m i \<noteq> None) \<and>
      snd (GetFreeTruckSlot m) = m\<lparr>m_free_actor_slot := Suc t\<rparr>)"
proof (cases rule: GetFreeTruckSlot_cases [where m = m])
  case full
  then show ?thesis by simp
next
  case (slot t)
  then show ?thesis by auto
qed

text \<open>C5, an instance: slot 0 is empty but below the mark, so slot 2 is returned.\<close>

theorem GetFreeTruckSlot_lowest_above_mark_witness:
  "fst (GetFreeTruckSlot (example_manager [None, Some (example_actor LOCAL_SIMULATED 0 0 1), None] 1 (- 1)))
     = Some 2 \<and>
   snd (GetFreeTruckSlot (example_manager [None, Some (example_actor LOCAL_SIMULATED 0 0 1), None] 1 (- 1)))
     = example_manager [None, Some (example_actor LOCAL_SIMULATED 0 0 1), None] 3 (- 1)"
proof -
  let ?m = "example_manager [None, Some (example_actor LOCAL_SIMULATED 0 0 1), None] 1 (- 1)"
  have e: "fst (GetFreeTruckSlot ?m) = Some 2"
    by (simp add: GetFreeTruckSlot_eval example_manager_def)
  with GetFreeTruckSlot_lowest_above_mark [of ?m]
  have "snd (GetFreeTruckSlot ?m) = ?m\<lparr>m_free_actor_slot := Suc 2\<rparr>" by blast
  with e show ?thesis by (simp add: example_manager_def)
qed

text \<open>
  C5 as stated fails. In a registry of two slots, after two spawns and the deletion
  of the first actor, slot 0 is free and \<^verbatim>\<open>GetFreeTruckSlot\<close> fails all the same.
\<close>

lemma example_spawn_first: "registry_step (Spawn (example_actor LOCAL_SIMULATED 0 0 1)) (example_manager [None, None] 0 (- 1))
  = Some ([0], example_manager [Some (new_Actor (example_actor LOCAL_SIMULATED 0 0 1) 0), None] 1 (- 1))"
  by (simp add: registry_step_def CreateLocalRigInstance_def GetFreeTruckSlot_eval
      example_manager_def example_actor_def new_Actor_def Let_def)

lemma example_delete_first: "registry_step (Delete 0) (example_manager [Some (new_Actor (example_actor LOCAL_SIMULATED 0 0 1) 0), Some (new_Actor (example_actor LOCAL_SIMULATED 0 0 1) 1)] 2 (- 1))
  = Some ([], example_manager [None, Some (new_Actor (example_actor LOCAL_SIMULATED 0 0 1) 1)] 2 (- 1))"
  by (simp add: registry_step_def DeleteTruck_def getTruck_def actor_at_def
      example_manager_def example_actor_def new_Actor_def)


lemma example_spawn_second: "registry_step (Spawn (example_actor LOCAL_SIMULATED 0 0 1)) (example_manager [Some (new_Actor (example_actor LOCAL_SIMULATED 0 0 1) 0), None] 1 (- 1))
  = Some ([1], example_manager [Some (new_Actor (example_actor LOCAL_SIMULATED 0 0 1) 0), Some (new_Actor (example_actor LOCAL_SIMULATED 0 0 1) 1)] 2 (- 1))"
  by (simp add: registry_step_def CreateLocalRigInstance_def GetFreeTruckSlot_eval
      example_manager_def example_actor_def new_Actor_def Let_def)

theorem GetFreeTruckSlot_free_slot_counterexample:
  "registry_run
     [Spawn (example_actor LOCAL_SIMULATED 0 0 1), Spawn (example_actor LOCAL_SIMULATED 0 0 1), Delete 0]
     (example_manager [None, None] 0 (- 1))
   = Some ([0, 1],
       example_manager [None, Some (new_Actor (example_actor LOCAL_SIMULATED 0 0 1) 1)] 2 (- 1)) \<and>
   actor_at (example_manager [None, Some (new_Actor (example_actor LOCAL_SIMULATED 0 0 1) 1)] 2 (- 1)) 0
     = None \<and>
   0 < MAX_TRUCKS (example_manager [None, Some (new_Actor (example_actor LOCAL_SIMULATED 0 0 1) 1)] 2 (- 1)) \<and>
   fst (GetFreeTruckSlot
         (example_manager [None, Some (new_Actor (example_actor LOCAL_SIMULATED 0 0 1) 1)] 2 (- 1)))
     = None"
proof -
  have "fst (GetFreeTruckSlot
         (example_manager [None, Some (new_Actor (example_actor LOCAL_SIMULATED 0 0 1) 1)] 2 (- 1)))
     = None"
    by (simp add: GetFreeTruckSlot_eval example_manager_def)
  moreover have "actor_at (example_manager [None, Some (new_Actor (example_actor LOCAL_SIMULATED 0 0 1) 1)] 2 (- 1)) 0
     = None"
    by (simp add: actor_at_def example_manager_def)
  moreover have "0 < MAX_TRUCKS (example_manager [None, Some (new_Actor (example_actor LOCAL_SIMULATED 0 0 1) 1)] 2 (- 1))"
    by (simp add: MAX_TRUCKS_def example_manager_def)
  moreover have "registry_run
     [Spawn (example_actor LOCAL_SIMULATED 0 0 1), Spawn (example_actor LOCAL_SIMULATED 0 0 1), Delete 0]
     (example_manager [None, None] 0 (- 1))
   = Some ([0, 1],
       example_manager [None, Some (new_Actor (example_actor LOCAL_SIMULATED 0 0 1) 1)] 2 (- 1))"
    by (simp add: example_spawn_first example_spawn_second example_delete_first del: One_nat_def)
  ultimately show ?thesis
    by (simp only: simp_thms)
qed

text \<open>
  C6. Over any session of spawns, deletions and clean-ups the high-water mark
  \<^verbatim>\<open>m_free_actor_slot\<close> never decreases, the slot indices handed out are pairwise
  different and none is below the mark the session started with. A deletion leaves
  the mark as it is and empties the slot; \<^verbatim>\<open>CleanUpAllTrucks\<close> leaves the mark as it
  is, sets the player's selection to none and empties every slot.
\<close>

theorem high_water_mark_never_decreases:
  "(\<exists>ts m'. registry_run oprs m = Some (ts, m') \<and>
      m_free_actor_slot m \<le> m_free_actor_slot m' \<and> distinct ts \<and>
      (\<forall>t. t \<in> set ts \<longrightarrow> m_free_actor_slot m \<le> t \<and> t < m_free_actor_slot m')) \<and>
   (\<forall>i. \<exists>m'. DeleteTruck (getTruck m (int i)) m = Some m' \<and>
      m_free_actor_slot m' = m_free_actor_slot m \<and> (reg_inv m \<longrightarrow> actor_at m' i = None)) \<and>
   m_free_actor_slot (CleanUpAllTrucks m) = m_free_actor_slot m \<and>
   m_player_actor (CleanUpAllTrucks m) = - 1 \<and>
   (reg_inv m \<longrightarrow> (\<forall>i. actor_at (CleanUpAllTrucks m) i = None))"
proof -
  have run: "\<exists>ts m'. registry_run oprs m = Some (ts, m') \<and>
      m_free_actor_slot m \<le> m_free_actor_slot m' \<and> distinct ts \<and>
      (\<forall>t. t \<in> set ts \<longrightarrow> m_free_actor_slot m \<le> t \<and> t < m_free_actor_slot m')"
    using registry_run_props [of oprs m] by blast
  have del: "\<exists>m'. DeleteTruck (getTruck m (int i)) m = Some m' \<and>
      m_free_actor_slot m' = m_free_actor_slot m \<and> (reg_inv m \<longrightarrow> actor_at m' i = None)" for i
  proof (cases "getTruck m (int i)")
    case None
    have "reg_inv m \<Longrightarrow> actor_at m i = None"
    proof (rule ccontr)
      assume inv: "reg_inv m" and "actor_at m i \<noteq> None"
      then obtain a where "actor_at m i = Some a" by auto
      with inv have "i < m_free_actor_slot m" by (simp add: reg_inv_def)
      with None \<open>actor_at m i = Some a\<close> show False by (simp add: getTruck_def)
    qed
    with None show ?thesis by (simp add: DeleteTruck_def)
  next
    case (Some a)
    then have a: "actor_at m i = Some a" by (simp add: getTruck_def split: if_splits)
    from DeleteTruck_props [of "Some a" m] obtain m' where
      m': "DeleteTruck (Some a) m = Some m'" "m_free_actor_slot m' = m_free_actor_slot m"
        "actor_at m' (ar_instance_id a) = None"
      by auto
    from a have "reg_inv m \<Longrightarrow> ar_instance_id a = i" by (simp add: reg_inv_def)
    with m' Some show ?thesis by auto
  qed
  have clr: "reg_inv m \<Longrightarrow> actor_at (CleanUpAllTrucks m) i = None" for i
  proof -
    assume inv: "reg_inv m"
    then have "m_free_actor_slot m \<le> MAX_TRUCKS m" by (simp add: reg_inv_def)
    from CleanUpAllTrucks_props [OF this]
    have "actor_at (CleanUpAllTrucks m) i = (if i < m_free_actor_slot m then None else actor_at m i)"
      by simp
    moreover have "\<not> i < m_free_actor_slot m \<Longrightarrow> actor_at m i = None"
      using inv unfolding reg_inv_def by (cases "actor_at m i") auto
    ultimately show ?thesis by simp
  qed
  from run del clr CleanUpAllTrucks_frame [of m] show ?thesis by blast
qed

text \<open>C6, an instance: a session on a registry of three slots with one actor.\<close>

lemma example_reg_inv:
  "reg_inv (example_manager [Some (new_Actor (example_actor LOCAL_SIMULATED 0 0 1) 0), None, None] 1 0)"
  by (auto simp add: reg_inv_def MAX_TRUCKS_def actor_at_def example_manager_def new_Actor_def
      nth_Cons' split: if_splits)

theorem high_water_mark_never_decreases_witness:
  "(\<exists>ts m'. registry_run
        [Spawn (example_actor LOCAL_SIMULATED 0 0 1), Delete 0, Spawn (example_actor INVALID 0 0 1),
         ClearAll, Spawn (example_actor LOCAL_SIMULATED 0 0 1)]
        (example_manager [Some (new_Actor (example_actor LOCAL_SIMULATED 0 0 1) 0), None, None] 1 0)
        = Some (ts, m') \<and>
      m_free_actor_slot (example_manager [Some (new_Actor (example_actor LOCAL_SIMULATED 0 0 1) 0), None, None] 1 0)
        \<le> m_free_actor_slot m' \<and> distinct ts) \<and>
   reg_inv (example_manager [Some (new_Actor (example_actor LOCAL_SIMULATED 0 0 1) 0), None, None] 1 0) \<and>
   (\<exists>m'. DeleteTruck
       (getTruck (example_manager [Some (new_Actor (example_actor LOCAL_SIMULATED 0 0 1) 0), None, None] 1 0) (int 0))
       (example_manager [Some (new_Actor (example_actor LOCAL_SIMULATED 0 0 1) 0), None, None] 1 0) = Some m' \<and>
       m_free_actor_slot m' = 1 \<and> actor_at m' 0 = None) \<and>
   m_free_actor_slot
     (CleanUpAllTrucks (example_manager [Some (new_Actor (example_actor LOCAL_SIMULATED 0 0 1) 0), None, None] 1 0))
     = 1 \<and>
   actor_at
     (CleanUpAllTrucks (example_manager [Some (new_Actor (example_actor LOCAL_SIMULATED 0 0 1) 0), None, None] 1 0))
     0 = None"
proof -
  let ?m = "example_manager [Some (new_Actor (example_actor LOCAL_SIMULATED 0 0 1) 0), None, None] 1 0"
  let ?oprs = "[Spawn (example_actor LOCAL_SIMULATED 0 0 1), Delete 0, Spawn (example_actor INVALID 0 0 1),
         ClearAll, Spawn (example_actor LOCAL_SIMULATED 0 0 1)]"
  have slot: "m_free_actor_slot ?m = 1" by (simp add: example_manager_def)
  from high_water_mark_never_decreases [of ?oprs ?m] example_reg_inv slot show ?thesis
    by (simp only: simp_thms) blast
qed

text \<open>
  C9. When the constructed actor is \<^verbatim>\<open>INVALID\<close>, \<^verbatim>\<open>CreateLocalRigInstance\<close> returns
  null and no slot becomes occupied, but the high-water mark stays past the slot that
  was allocated: the slot is never handed out later in the session and the number of
  slots left above the mark has gone down.
\<close>

theorem invalid_spawn_consumes_slot:
  assumes invalid: "ar_sim_state b0 = INVALID" and slot: "fst (GetFreeTruckSlot m) = Some t"
  shows "\<exists>m'. CreateLocalRigInstance b0 m = Some (None, m') \<and>
           m_free_actor_slot m' = Suc t \<and> m_free_actor_slot m < m_free_actor_slot m' \<and>
           MAX_TRUCKS m' = MAX_TRUCKS m \<and>
           (\<forall>u. actor_at m' u = None \<longleftrightarrow> actor_at m u = None) \<and>
           MAX_TRUCKS m' - m_free_actor_slot m' < MAX_TRUCKS m - m_free_actor_slot m \<and>
           (\<forall>oprs ts m''. registry_run oprs m' = Some (ts, m'') \<longrightarrow> t \<notin> set ts)"
proof (cases rule: GetFreeTruckSlot_cases [where m = m])
  case full
  with slot show ?thesis by simp
next
  case (slot u)
  with assms(2) have ut: "u = t" by simp
  let ?m1 = "m\<lparr>m_free_actor_slot := Suc t\<rparr>"
  let ?b = "new_Actor b0 t"
  have same: "actor_at ?m1 i = actor_at m i" for i by (simp add: actor_at_def)
  from DeleteTruck_props [of "Some ?b" ?m1] obtain m' where
    del: "DeleteTruck (Some ?b) ?m1 = Some m'" "m_free_actor_slot m' = Suc t"
      "length (m_actors m') = length (m_actors m)"
      "actor_at m' (ar_instance_id ?b) = None"
      "\<forall>i. i \<noteq> ar_instance_id ?b \<longrightarrow> (actor_at m' i = None \<longleftrightarrow> actor_at ?m1 i = None)"
    by auto
  have id: "ar_instance_id ?b = t" by (simp add: new_Actor_def)
  have occ: "actor_at m' i = None \<longleftrightarrow> actor_at m i = None" for i
    using del(4,5) id slot(4) ut same by (cases "i = t") auto
  have later: "t \<notin> set ts" if "registry_run oprs m' = Some (ts, m'')" for oprs ts m''
    using registry_run_props [of oprs m'] that del(2) by fastforce
  have "CreateLocalRigInstance b0 m = Some (None, m')"
    using slot(1) ut invalid del(1) by (simp add: CreateLocalRigInstance_invalid)
  with del(2,3) occ later slot(2,3) ut show ?thesis
    by (auto simp add: MAX_TRUCKS_def)
qed

text \<open>C9, an instance: an invalid spawn into an empty registry of two slots.\<close>

theorem invalid_spawn_consumes_slot_witness:
  "ar_sim_state (example_actor INVALID 0 0 1) = INVALID \<and>
   fst (GetFreeTruckSlot (example_manager [None, None] 0 (- 1))) = Some 0 \<and>
   (\<exists>m'. CreateLocalRigInstance (example_actor INVALID 0 0 1) (example_manager [None, None] 0 (- 1))
           = Some (None, m') \<and>
         m_free_actor_slot m' = Suc 0 \<and> actor_at m' 0 = None \<and>
         MAX_TRUCKS m' - m_free_actor_slot m' < 2)"
proof -
  let ?m = "example_manager [None, None] 0 (- 1)"
  have h1: "ar_sim_state (example_actor INVALID 0 0 1) = INVALID"
    by (simp add: example_actor_def)
  have h2: "fst (GetFreeTruckSlot ?m) = Some 0"
    by (simp add: GetFreeTruckSlot_eval example_manager_def)
  have e: "actor_at ?m 0 = None" "MAX_TRUCKS ?m - m_free_actor_slot ?m = 2"
    by (simp_all add: actor_at_def MAX_TRUCKS_def example_manager_def)
  from invalid_spawn_consumes_slot [OF h1 h2] obtain m' where
    "CreateLocalRigInstance (example_actor INVALID 0 0 1) ?m = Some (None, m')"
    "m_free_actor_slot m' = Suc 0" "\<forall>u. actor_at m' u = None \<longleftrightarrow> actor_at ?m u = None"
    "MAX_TRUCKS m' - m_free_actor_slot m' < MAX_TRUCKS ?m - m_free_actor_slot ?m"
    by blast
  with h1 h2 e show ?thesis by auto
qed

text \<open>
  C10. \<^verbatim>\<open>checkStreamsOK\<close> changes the manager: a source id that is absent from the
  mismatch map is inserted with an empty entry, and nothing else changes. It returns
  0 iff the source's entry is not empty, 1 iff it is empty and a \<^verbatim>\<open>NETWORKED_OK\<close> actor
  below the high-water mark has that source id, and 2 otherwise.
\<close>

theorem checkStreamsOK_inserts_and_classifies:
  "(m_stream_mismatches m sourceid = None \<longrightarrow>
      m_stream_mismatches (snd (checkStreamsOK sourceid m)) = (m_stream_mismatches m)(sourceid \<mapsto> [])) \<and>
   (m_stream_mismatches m sourceid \<noteq> None \<longrightarrow> snd (checkStreamsOK sourceid m) = m) \<and>
   (snd (checkStreamsOK sourceid m))\<lparr>m_stream_mismatches := m_stream_mismatches m\<rparr> = m \<and>
   (fst (checkStreamsOK sourceid m) = 0 \<longleftrightarrow>
      (\<exists>v. m_stream_mismatches m sourceid = Some v \<and> v \<noteq> [])) \<and>
   (fst (checkStreamsOK sourceid m) = 1 \<longleftrightarrow>
      \<not> (\<exists>v. m_stream_mismatches m sourceid = Some v \<and> v \<noteq> []) \<and>
      (\<exists>t a. t < m_free_actor_slot m \<and> actor_at m t = Some a \<and>
             ar_sim_state a = NETWORKED_OK \<and> ar_net_source_id a = sourceid)) \<and>
   (fst (checkStreamsOK sourceid m) = 2 \<longleftrightarrow>
      \<not> (\<exists>v. m_stream_mismatches m sourceid = Some v \<and> v \<noteq> []) \<and>
      \<not> (\<exists>t a. t < m_free_actor_slot m \<and> actor_at m t = Some a \<and>
             ar_sim_state a = NETWORKED_OK \<and> ar_net_source_id a = sourceid))"
proof -
  let ?hit = "\<lambda>m. \<exists>t a. t < m_free_actor_slot m \<and> actor_at m t = Some a \<and>
             ar_sim_state a = NETWORKED_OK \<and> ar_net_source_id a = sourceid"
  have loop: "checkStreamsOK_from sourceid 0 m' = (if ?hit m' then 1 else 2)" for m'
    by (simp add: checkStreamsOK_from_eq)
  show ?thesis
  proof (cases "m_stream_mismatches m sourceid")
    case None
    let ?m' = "m\<lparr>m_stream_mismatches := (m_stream_mismatches m)(sourceid \<mapsto> [])\<rparr>"
    have "?hit ?m' = ?hit m" by (simp add: actor_at_def)
    with None loop [of ?m'] have "checkStreamsOK sourceid m = (if ?hit m then 1 else 2, ?m')"
      by (simp add: checkStreamsOK_def)
    with None show ?thesis by auto
  next
    case (Some v)
    with loop [of m] have "checkStreamsOK sourceid m = (if v \<noteq> [] then 0 else if ?hit m then 1 else 2, m)"
      by (simp add: checkStreamsOK_def)
    with Some show ?thesis by auto
  qed
qed

text \<open>C10, an instance: a source with one networked actor and no entry in the map.\<close>

theorem checkStreamsOK_inserts_and_classifies_witness:
  "m_stream_mismatches (example_manager [Some (example_actor NETWORKED_OK 0 0 1), None] 1 (- 1)) 0 = None \<and>
   m_stream_mismatches (snd (checkStreamsOK 0 (example_manager [Some (example_actor NETWORKED_OK 0 0 1), None] 1 (- 1))))
     = [0 \<mapsto> []] \<and>
   fst (checkStreamsOK 0 (example_manager [Some (example_actor NETWORKED_OK 0 0 1), None] 1 (- 1))) = 1"
proof -
  let ?m = "example_manager [Some (example_actor NETWORKED_OK 0 0 1), None] 1 (- 1)"
  have none: "m_stream_mismatches ?m 0 = None" and empty: "m_stream_mismatches ?m = Map.empty"
    by (simp_all add: example_manager_def)
  have hit: "\<exists>t a. t < m_free_actor_slot ?m \<and> actor_at ?m t = Some a \<and>
             ar_sim_state a = NETWORKED_OK \<and> ar_net_source_id a = 0"
    by (rule exI [of _ 0]) (simp add: example_manager_def example_actor_def actor_at_def)
  from checkStreamsOK_inserts_and_classifies [of ?m 0] none hit
  have "m_stream_mismatches (snd (checkStreamsOK 0 ?m)) = (m_stream_mismatches ?m)(0 \<mapsto> [])"
    and "fst (checkStreamsOK 0 ?m) = 1"
    by (simp_all only: option.simps simp_thms)
  with none empty show ?thesis by simp
qed

subsection \<open>Frame scheduler\<close>














subsection \<open>The activity state machine as a whole\<close>

lemma actor_at_player_reset_not_simulated:
  "sim_state_at m t \<noteq> Some LOCAL_SIMULATED \<Longrightarrow> actor_at (player_reset m) t = actor_at m t"
  by (auto simp add: player_reset_def actor_at_set_actor sim_state_at_def
      dest!: GetPlayerActorInternal_Some split: option.splits)

lemma reach_pass_facts:
  "\<exists>m' vis. UpdateSleepingState_reach m = Some (m', vis) \<and>
     activation_step (player_reset m, {}) (m', vis) \<and>
     visited_simulated (m', vis) \<and>
     (\<forall>j. j \<in> vis \<longrightarrow> wake_closed m' j) \<and>
     (\<forall>ct. GetPlayerActorInternal m = Some ct \<and> ar_sim_state ct = LOCAL_SIMULATED
           \<longrightarrow> nat (m_player_actor m) \<in> vis) \<and>
     same_static m m'"
proof -
  from UpdateSleepingState_reach_props [of m] obtain m' vis where
    run: "UpdateSleepingState_reach m = Some (m', vis)"
    and step: "activation_step (player_reset m, {}) (m', vis)"
    and cl: "closes (player_reset m, {}) (m', vis)"
    and pl: "\<forall>ct. GetPlayerActorInternal m = Some ct \<and> ar_sim_state ct = LOCAL_SIMULATED
           \<longrightarrow> nat (m_player_actor m) \<in> vis"
    by blast
  have "same_static m m'"
    using same_static_player_reset [of m] activation_step_same_static [OF step]
    by (auto intro: same_static_trans)
  with run step cl pl show ?thesis
    by (auto simp add: closes_def)
qed

lemma activation_step_actor:
  assumes "activation_step (m0, vis0) (m', vis)" and "actor_at m0 t = Some a"
  obtains a' where "actor_at m' t = Some a'" "static a' = static a"
    "(ar_sim_state a' = ar_sim_state a \<and>
        (ar_sleep_counter a' = ar_sleep_counter a \<or>
         (ar_sleep_counter a' = 0 \<and> ar_sim_state a = LOCAL_SIMULATED \<and>
          (\<exists>j. j \<in> vis \<and> j \<noteq> t \<and> truckIntersectionCollAABB m0 t j (6 / 5)))))
     \<or> (ar_sim_state a = LOCAL_SLEEPING \<and> ar_sim_state a' = LOCAL_SIMULATED \<and>
         ar_sleep_counter a' = 0 \<and> t \<in> vis \<and>
         (\<exists>j. j \<in> vis \<and> j \<noteq> t \<and> predictTruckIntersectionCollAABB m0 t j 1))"
proof -
  from assms(1) have st: "same_static m0 m'" by (auto dest: activation_step_same_static)
  from same_static_Some [OF st assms(2)] obtain a' where
    a': "actor_at m' t = Some a'" "static a' = static a" by blast
  with assms show ?thesis
    unfolding activation_step_def fst_conv snd_conv by (intro that [of a']) blast+
qed








lemmas overlap_eval =
  truckIntersectionCollAABB_def predictTruckIntersectionCollAABB_def collAABB_def
  intersectionAABB_def intersects_def dilate_def getCenter_def getHalfSize_def
  vadd_def vsub_def vscale_def actor_at_def
  example_manager_def example_actor_def example_box_def

lemma example_scene_states:
  "sim_state_at example_scene 1 = Some LOCAL_SLEEPING"
  "sim_state_at example_scene 2 = Some LOCAL_SLEEPING"
  "sim_state_at example_scene 3 = Some NETWORKED_OK"
  "sim_state_at example_scene 4 = Some LOCAL_SLEEPING"
  "m_free_actor_slot example_scene = 5"
  "GetPlayerActorInternal example_scene = Some (example_actor LOCAL_SIMULATED 3 0 2)"
  "nat (m_player_actor example_scene) = 0"
  by (simp_all add: example_scene_def sim_state_at_def actor_at_def example_manager_def
      example_actor_def GetPlayerActorInternal_def getTruck_def)

lemma example_scene_overlaps:
  "predictTruckIntersectionCollAABB example_scene 1 0 1"
  "predictTruckIntersectionCollAABB example_scene 2 1 1"
  "\<not> predictTruckIntersectionCollAABB example_scene 2 0 1"
  "predictTruckIntersectionCollAABB example_scene 4 3 1"
  by (simp_all add: example_scene_def overlap_eval)

lemma example_scene_networked_only:
  assumes "j \<noteq> 4" and "predictTruckIntersectionCollAABB example_scene 4 j 1"
  shows "sim_state_at example_scene j = Some NETWORKED_OK"
proof -
  consider "j = 0" | "j = 1" | "j = 2" | "j = 3" | "j = 4" | "5 \<le> j" by linarith
  then show ?thesis
  proof cases
    case 1
    with assms(2) show ?thesis by (simp add: example_scene_def overlap_eval)
  next
    case 2
    with assms(2) show ?thesis by (simp add: example_scene_def overlap_eval)
  next
    case 3
    with assms(2) show ?thesis by (simp add: example_scene_def overlap_eval)
  next
    case 4
    then show ?thesis by (simp add: example_scene_states)
  next
    case 5
    with assms(1) show ?thesis by simp
  next
    case 6
    then have "actor_at example_scene j = None"
      by (auto simp add: example_scene_def actor_at_def example_manager_def nth_Cons' )
    with assms(2) show ?thesis
      by (simp add: predictTruckIntersectionCollAABB_def split: option.splits)
  qed
qed






text \<open>
  C7. In the reachability pass every visited actor is \<^verbatim>\<open>LOCAL_SIMULATED\<close> after the
  pass and was not \<^verbatim>\<open>NETWORKED_OK\<close> before it; every actor that the pass wakes overlaps
  a visited actor other than itself, which is not networked; a networked actor is
  left as it was; and a sleeping actor whose predicted geometry overlaps networked
  actors only stays asleep.
\<close>

theorem networked_actors_do_not_relay:
  "\<exists>m' visited. UpdateSleepingState_reach m = Some (m', visited) \<and>
     (\<forall>j. j \<in> visited \<longrightarrow>
        sim_state_at m' j = Some LOCAL_SIMULATED \<and> sim_state_at m j \<noteq> Some NETWORKED_OK) \<and>
     (\<forall>t. sim_state_at m t = Some LOCAL_SLEEPING \<and> sim_state_at m' t = Some LOCAL_SIMULATED
        \<longrightarrow> (\<exists>j. j \<in> visited \<and> j \<noteq> t \<and> predictTruckIntersectionCollAABB m t j 1 \<and>
                 sim_state_at m j \<noteq> Some NETWORKED_OK)) \<and>
     (\<forall>t a. actor_at m t = Some a \<and> ar_sim_state a = NETWORKED_OK \<longrightarrow> actor_at m' t = Some a) \<and>
     (\<forall>t. sim_state_at m t = Some LOCAL_SLEEPING \<and>
          (\<forall>j. j \<noteq> t \<and> predictTruckIntersectionCollAABB m t j 1
               \<longrightarrow> sim_state_at m j = Some NETWORKED_OK)
        \<longrightarrow> sim_state_at m' t = Some LOCAL_SLEEPING)"
proof -
  from reach_pass_facts [of m]
  obtain m' vis where run: "UpdateSleepingState_reach m = Some (m', vis)"
    and step: "activation_step (player_reset m, {}) (m', vis)"
    and vs: "visited_simulated (m', vis)"
    and st: "same_static m m'"
    by blast
  let ?m0 = "player_reset m"
  have st0: "same_static m ?m0" by (rule same_static_player_reset)
  have clause: "\<exists>a'. actor_at m' t = Some a' \<and> static a' = static a \<and>
      ((ar_sim_state a' = ar_sim_state a \<and>
        (ar_sleep_counter a' = ar_sleep_counter a \<or>
         (ar_sleep_counter a' = 0 \<and> ar_sim_state a = LOCAL_SIMULATED)))
       \<or> (ar_sim_state a = LOCAL_SLEEPING \<and> ar_sim_state a' = LOCAL_SIMULATED \<and>
         (\<exists>j. j \<in> vis \<and> j \<noteq> t \<and> predictTruckIntersectionCollAABB m t j 1)))"
    if "actor_at ?m0 t = Some a" for t a
    using activation_step_actor [OF step that] same_static_predict [OF st0]
    by (metis (no_types, lifting))
  have local: "sim_state_at m' j = Some LOCAL_SIMULATED \<and> sim_state_at m j \<noteq> Some NETWORKED_OK"
    if j: "j \<in> vis" for j
  proof -
    from vs j have sim: "sim_state_at m' j = Some LOCAL_SIMULATED"
      by (simp add: visited_simulated_def)
    then obtain a' where a': "actor_at m' j = Some a'" by (auto simp add: sim_state_at_def)
    with same_static_None [OF activation_step_same_static [OF step], of j]
    obtain a where a: "actor_at ?m0 j = Some a" by auto
    from clause [OF a] a' sim have "ar_sim_state a \<noteq> NETWORKED_OK"
      by (auto simp add: sim_state_at_def)
    with a have "sim_state_at ?m0 j \<noteq> Some NETWORKED_OK" by (simp add: sim_state_at_def)
    with sim show ?thesis by simp
  qed
  have cause: "\<exists>j. j \<in> vis \<and> j \<noteq> t \<and> predictTruckIntersectionCollAABB m t j 1 \<and>
                 sim_state_at m j \<noteq> Some NETWORKED_OK"
    if "sim_state_at m t = Some LOCAL_SLEEPING" "sim_state_at m' t = Some LOCAL_SIMULATED" for t
  proof -
    from that(1) obtain a where a: "actor_at ?m0 t = Some a" "ar_sim_state a = LOCAL_SLEEPING"
      using sim_state_at_player_reset [of m t] by (auto simp add: sim_state_at_def)
    from clause [OF a(1)] a(2) that(2)
    obtain j where "j \<in> vis" "j \<noteq> t" "predictTruckIntersectionCollAABB m t j 1"
      by (auto simp add: sim_state_at_def)
    with local [of j] show ?thesis by blast
  qed
  have net: "actor_at m' t = Some a" if "actor_at m t = Some a" "ar_sim_state a = NETWORKED_OK" for t a
  proof -
    from that have "sim_state_at m t \<noteq> Some LOCAL_SIMULATED" by (simp add: sim_state_at_def)
    with that(1) have "actor_at ?m0 t = Some a"
      by (simp add: actor_at_player_reset_not_simulated)
    from clause [OF this] that(2) show ?thesis
      by (auto dest: static_eqI)
  qed
  have asleep: "sim_state_at m' t = Some LOCAL_SLEEPING"
    if sl: "sim_state_at m t = Some LOCAL_SLEEPING"
      and only: "\<forall>j. j \<noteq> t \<and> predictTruckIntersectionCollAABB m t j 1
               \<longrightarrow> sim_state_at m j = Some NETWORKED_OK" for t
  proof -
    from sl obtain a where a: "actor_at ?m0 t = Some a" "ar_sim_state a = LOCAL_SLEEPING"
      using sim_state_at_player_reset [of m t] by (auto simp add: sim_state_at_def)
    from clause [OF a(1)] a(2) consider "sim_state_at m' t = Some LOCAL_SLEEPING"
      | "sim_state_at m' t = Some LOCAL_SIMULATED"
      by (auto simp add: sim_state_at_def)
    then show ?thesis
    proof cases
      case 1
      then show ?thesis .
    next
      case 2
      from cause [OF sl 2] only show ?thesis by blast
    qed
  qed
  from run local cause net asleep show ?thesis by blast
qed

text \<open>
  C7, an instance: the sleeping actor in slot 4 overlaps the networked actor in
  slot 3 only; after the pass it is still asleep and slot 3 was not visited.
\<close>

theorem networked_actors_do_not_relay_witness:
  "sim_state_at example_scene 3 = Some NETWORKED_OK \<and>
   sim_state_at example_scene 4 = Some LOCAL_SLEEPING \<and>
   predictTruckIntersectionCollAABB example_scene 4 3 1 \<and>
   (\<exists>m' visited. UpdateSleepingState_reach example_scene = Some (m', visited) \<and>
      sim_state_at m' 4 = Some LOCAL_SLEEPING \<and> 3 \<notin> visited \<and>
      actor_at m' 3 = actor_at example_scene 3)"
proof -
  from networked_actors_do_not_relay [of example_scene] obtain m' vis where
    run: "UpdateSleepingState_reach example_scene = Some (m', vis)"
    and local: "\<forall>j. j \<in> vis \<longrightarrow>
        sim_state_at m' j = Some LOCAL_SIMULATED \<and> sim_state_at example_scene j \<noteq> Some NETWORKED_OK"
    and net: "\<forall>t a. actor_at example_scene t = Some a \<and> ar_sim_state a = NETWORKED_OK
        \<longrightarrow> actor_at m' t = Some a"
    and asleep: "\<forall>t. sim_state_at example_scene t = Some LOCAL_SLEEPING \<and>
          (\<forall>j. j \<noteq> t \<and> predictTruckIntersectionCollAABB example_scene t j 1
               \<longrightarrow> sim_state_at example_scene j = Some NETWORKED_OK)
        \<longrightarrow> sim_state_at m' t = Some LOCAL_SLEEPING"
    by blast
  from local example_scene_states(3) have "3 \<notin> vis" by blast
  moreover from asleep example_scene_states(4) example_scene_networked_only
  have "sim_state_at m' 4 = Some LOCAL_SLEEPING" by blast
  moreover from example_scene_states(3) obtain a where
    "actor_at example_scene 3 = Some a" "ar_sim_state a = NETWORKED_OK"
    by (auto simp add: sim_state_at_def)
  with net have "actor_at m' 3 = actor_at example_scene 3" by simp
  ultimately show ?thesis
    using run example_scene_states(3,4) example_scene_overlaps(4) by blast
qed

subsection \<open>Serial and parallel dispatch\<close>


lemma set_actor_steps [simp]: "m_physics_steps (set_actor t f m) = m_physics_steps m"
  by (simp add: set_actor_def)

lemma mark_Nil [simp]: "mark part i [] m = m"
  by (simp add: mark_def)

lemma mark_Cons:
  "mark part i (t # ts) m = mark part i ts (set_actor t (\<lambda>a. a\<lparr>ar_update_physics := part t i\<rparr>) m)"
  by (simp add: mark_def)

lemma mark_fields [simp]:
  "m_free_actor_slot (mark part i ts m) = m_free_actor_slot m"
  "m_physics_steps (mark part i ts m) = m_physics_steps m"
  by (induction ts arbitrary: m) (simp_all add: mark_Cons)


lemma prepare_calls_set_actor [simp]:
  "prepare_calls (set_actor u f m) i t = prepare_calls m i t"
  by (simp add: prepare_calls_def actor_at_set_actor split: option.splits)

lemma simulated_set_actor [simp]:
  "simulated part (set_actor u f m) i t = simulated part m i t"
  by (simp add: simulated_def actor_at_set_actor)

lemma intra_calls_set_actor [simp]:
  "intra_calls (set_actor u (\<lambda>a. a\<lparr>ar_update_physics := p\<rparr>) m) t = intra_calls m t"
  by (simp add: intra_calls_def actor_at_set_actor split: option.splits)

lemma intra_calls_mark [simp]: "intra_calls (mark part i ts m) t = intra_calls m t"
  by (induction ts arbitrary: m) (simp_all add: mark_Cons)





lemma serial_calls_set_actor [simp]:
  "serial_calls part (set_actor u (\<lambda>a. a\<lparr>ar_update_physics := p\<rparr>) m) i t = serial_calls part m i t"
  by (simp add: serial_calls_def)

lemma calls_set_actor_fun [simp]:
  "prepare_calls (set_actor u f m) i = prepare_calls m i"
  "simulated part (set_actor u f m) i = simulated part m i"
  "serial_calls part (set_actor u (\<lambda>a. a\<lparr>ar_update_physics := p\<rparr>) m) i = serial_calls part m i"
  by (rule ext, simp)+















lemma forces_of_intra [simp]: "filter (forces_of t0) (intra_calls m t) = []"
  by (simp add: intra_calls_def split: option.splits)

lemma forces_of_inter [simp]: "filter (forces_of t0) (inter_calls rel t) = []"
  by (simp add: inter_calls_def)







lemma pre_slot_appends:
  "pre_slot (recording part rel) dt m t e = e @ pre_slot (recording part rel) dt m t []"
  by (simp add: pre_slot_def recording_def)













end
